theory Spec2Isabelle
  imports Main "HOL-Library.FSet"
begin

section \<open>The publish-subscribe registry of messager.py\<close>

text \<open>
  The development follows \<^verbatim>\<open>src/messager.py\<close>. Python objects are identified by
  a natural number standing for their identity; what \<^verbatim>\<open>inspect\<close> and
  \<^verbatim>\<open>asyncio\<close> report about an object is read from an environment. A raise is a
  value: every operation returns the state it leaves behind together with the exception
  that left it, if any.

  The model is that of one thread of control: the lock, which every registry call takes
  and which \<^verbatim>\<open>publish\<close> releases before it calls a handler, is not modelled.
  Tokens and annotations are hashable values, and \<^verbatim>\<open>inspect.signature\<close> succeeds on
  every callable.
\<close>

subsection \<open>Values, types, tokens\<close>

text \<open>
  The runtime type of a message is the key of the routing table. Types are compared as
  Python compares type objects in a dictionary, by identity, so \<^verbatim>\<open>bool\<close> and
  \<^verbatim>\<open>int\<close> are different keys although one is a subclass of the other.
\<close>

datatype ty = StrT | IntT | BoolT | NoneT | ClassT string

datatype msg = StrV string | IntV int | BoolV bool | NoneV | ObjV string nat

fun type_of :: "msg \<Rightarrow> ty" where
  "type_of (StrV s) = StrT"
| "type_of (IntV i) = IntT"
| "type_of (BoolV b) = BoolT"
| "type_of NoneV = NoneT"
| "type_of (ObjV c i) = ClassT c"

text \<open>The subclass relation of the built-in types: \<^verbatim>\<open>bool\<close> derives from \<^verbatim>\<open>int\<close>.\<close>

fun issubclass :: "ty \<Rightarrow> ty \<Rightarrow> bool" where
  "issubclass BoolT IntT = True"
| "issubclass a b = (a = b)"

text \<open>A token is a hashable key; \<open>NoToken\<close> is the default \<^verbatim>\<open>None\<close>.\<close>

datatype token = NoToken | Token string

subsection \<open>Callables, receivers and what introspection says about them\<close>

text \<open>
  \<open>Func f\<close> is a function object, \<open>Method r\<close> the bound method
  \<^verbatim>\<open>r.receive\<close> of the receiver object \<open>r\<close>: two evaluations of
  \<^verbatim>\<open>r.receive\<close> are equal and hash alike, and differ from every function and from
  \<open>r\<close> itself. The identity set \<^verbatim>\<open>subscriberSet\<close> holds callables and receiver
  objects side by side.
\<close>

datatype callable = Func nat | Method nat

datatype member = Handler callable | Receiver nat

datatype reason = AlreadySubscribed | NotOneParameter | NoAnnotation

datatype exc = ValueError reason | AttributeError | RuntimeError | Exc string

text \<open>
  \<open>signature\<close> lists the annotation of each parameter (\<open>None\<close> for
  \<^verbatim>\<open>inspect.Parameter.empty\<close>), \<open>iscoroutinefunction\<close> is the test of
  \<^verbatim>\<open>asyncio\<close>, \<open>token_attr\<close> the attribute \<^verbatim>\<open>token\<close> of a receiver
  when it has one. \<open>has_name\<close> says whether a callable has the attribute
  \<^verbatim>\<open>__name__\<close>: a function and a bound method have it, a
  \<^verbatim>\<open>functools.partial\<close> object or an instance with \<^verbatim>\<open>__call__\<close> has not.
\<close>

record pyenv =
  signature :: "callable \<Rightarrow> ty option list"
  iscoroutinefunction :: "callable \<Rightarrow> bool"
  token_attr :: "nat \<Rightarrow> token option"
  has_name :: "callable \<Rightarrow> bool"

subsection \<open>The registry\<close>

record registry =
  subscribers :: "ty \<rightharpoonup> (token \<rightharpoonup> callable fset)"
  subscriberSet :: "member fset"

definition empty_registry :: registry where
  "empty_registry = \<lparr>subscribers = Map.empty, subscriberSet = {||}\<rparr>"

definition get_parameter_type :: "pyenv \<Rightarrow> callable \<Rightarrow> exc + ty" where
  "get_parameter_type E subscriber =
     (let parameters = signature E subscriber in
      if length parameters \<noteq> 1 then Inl (ValueError NotOneParameter)
      else case parameters of
             first_param # _ \<Rightarrow>
               (case first_param of
                  None \<Rightarrow> Inl (ValueError NoAnnotation)
                | Some parameter_type \<Rightarrow> Inr parameter_type)
           | [] \<Rightarrow> Inl (ValueError NotOneParameter))"

text \<open>
  The two statements that create a missing entry, and the read
  \<^verbatim>\<open>self.subscribers[parameter_type][token]\<close> that follows them.
\<close>

definition ensure_type :: "ty \<Rightarrow> registry \<Rightarrow> registry" where
  "ensure_type T reg =
     (if subscribers reg T = None
      then reg\<lparr>subscribers := (subscribers reg)(T \<mapsto> Map.empty)\<rparr> else reg)"

definition ensure_token :: "ty \<Rightarrow> token \<Rightarrow> registry \<Rightarrow> registry" where
  "ensure_token T tok reg =
     (case subscribers reg T of
        None \<Rightarrow> reg
      | Some tm \<Rightarrow>
          if tm tok = None
          then reg\<lparr>subscribers := (subscribers reg)(T \<mapsto> tm(tok \<mapsto> {||}))\<rparr> else reg)"

definition bucket_add :: "ty \<Rightarrow> token \<Rightarrow> callable \<Rightarrow> registry \<Rightarrow> registry" where
  "bucket_add T tok h reg =
     (case subscribers reg T of
        None \<Rightarrow> reg
      | Some tm \<Rightarrow>
          (case tm tok of
             None \<Rightarrow> reg
           | Some S \<Rightarrow> reg\<lparr>subscribers := (subscribers reg)(T \<mapsto> tm(tok \<mapsto> finsert h S))\<rparr>))"

text \<open>
  The message of the duplicate error of \<^verbatim>\<open>subscribe\<close> is built from
  \<^verbatim>\<open>subscriber.__name__\<close> before the \<^verbatim>\<open>ValueError\<close> is raised: on a callable
  without that attribute the lookup raises \<^verbatim>\<open>AttributeError\<close> instead. The message
  of \<^verbatim>\<open>subscribeReceiver\<close> uses \<^verbatim>\<open>receiver.__class__.__name__\<close>, which every
  object has.
\<close>

definition subscribe :: "pyenv \<Rightarrow> callable \<Rightarrow> token \<Rightarrow> registry \<Rightarrow> registry \<times> exc option" where
  "subscribe E subscriber tok reg =
     (if Handler subscriber |\<in>| subscriberSet reg
      then (if has_name E subscriber then (reg, Some (ValueError AlreadySubscribed))
            else (reg, Some AttributeError))
      else case get_parameter_type E subscriber of
             Inl e \<Rightarrow> (reg, Some e)
           | Inr parameter_type \<Rightarrow>
               (let reg1 = ensure_type parameter_type reg;
                    reg2 = ensure_token parameter_type tok reg1;
                    reg3 = reg2\<lparr>subscriberSet := finsert (Handler subscriber) (subscriberSet reg2)\<rparr>
                in (bucket_add parameter_type tok subscriber reg3, None)))"

definition subscribeReceiver :: "pyenv \<Rightarrow> nat \<Rightarrow> registry \<Rightarrow> registry \<times> exc option" where
  "subscribeReceiver E receiver reg =
     (if Receiver receiver |\<in>| subscriberSet reg
      then (reg, Some (ValueError AlreadySubscribed))
      else case get_parameter_type E (Method receiver) of
             Inl e \<Rightarrow> (reg, Some e)
           | Inr parameter_type \<Rightarrow>
               (let reg1 = ensure_type parameter_type reg;
                    tok = (case token_attr E receiver of None \<Rightarrow> NoToken | Some t \<Rightarrow> t);
                    reg2 = ensure_token parameter_type tok reg1;
                    reg3 = reg2\<lparr>subscriberSet := finsert (Receiver receiver) (subscriberSet reg2)\<rparr>
                in (bucket_add parameter_type tok (Method receiver) reg3, None)))"

text \<open>
  The loop of \<^verbatim>\<open>unsubscribe\<close> over the token buckets of one type discards the
  callable from each bucket that holds it.
\<close>

definition discard_everywhere :: "ty \<Rightarrow> callable \<Rightarrow> registry \<Rightarrow> registry" where
  "discard_everywhere T h reg =
     (case subscribers reg T of
        None \<Rightarrow> reg
      | Some tm \<Rightarrow>
          reg\<lparr>subscribers := (subscribers reg)
                 (T \<mapsto> (\<lambda>tok. map_option (\<lambda>S. if h |\<in>| S then S |-| {|h|} else S) (tm tok)))\<rparr>)"

definition unsubscribe :: "pyenv \<Rightarrow> callable \<Rightarrow> registry \<Rightarrow> registry \<times> exc option" where
  "unsubscribe E subscriber reg =
     (case get_parameter_type E subscriber of
        Inl e \<Rightarrow> (reg, Some e)
      | Inr parameter_type \<Rightarrow>
          (let reg1 = discard_everywhere parameter_type subscriber reg
           in (reg1\<lparr>subscriberSet := subscriberSet reg1 |-| {|Handler subscriber|}\<rparr>, None)))"

definition unsubscribeReceiver :: "pyenv \<Rightarrow> nat \<Rightarrow> registry \<Rightarrow> registry \<times> exc option" where
  "unsubscribeReceiver E receiver reg =
     (case get_parameter_type E (Method receiver) of
        Inl e \<Rightarrow> (reg, Some e)
      | Inr parameter_type \<Rightarrow>
          (let reg1 = discard_everywhere parameter_type (Method receiver) reg
           in (reg1\<lparr>subscriberSet := subscriberSet reg1 |-| {|Receiver receiver|}\<rparr>, None)))"

text \<open>The copy of the bucket that \<^verbatim>\<open>publish\<close> takes under the lock.\<close>

definition snapshot :: "registry \<Rightarrow> ty \<Rightarrow> token \<Rightarrow> callable fset" where
  "snapshot reg message_type tok =
     (let subscriberMap = (case subscribers reg message_type of None \<Rightarrow> Map.empty | Some tm \<Rightarrow> tm)
      in case subscriberMap tok of None \<Rightarrow> {||} | Some S \<Rightarrow> S)"

subsection \<open>Sequences of registry calls\<close>

datatype op =
    Subscribe callable token
  | SubscribeReceiver nat
  | Unsubscribe callable
  | UnsubscribeReceiver nat

fun run_op :: "pyenv \<Rightarrow> op \<Rightarrow> registry \<Rightarrow> registry \<times> exc option" where
  "run_op E (Subscribe h tok) reg = subscribe E h tok reg"
| "run_op E (SubscribeReceiver r) reg = subscribeReceiver E r reg"
| "run_op E (Unsubscribe h) reg = unsubscribe E h reg"
| "run_op E (UnsubscribeReceiver r) reg = unsubscribeReceiver E r reg"

text \<open>A caller that catches what a call raises goes on with the state the call left.\<close>

fun run_ops :: "pyenv \<Rightarrow> op list \<Rightarrow> registry \<Rightarrow> registry" where
  "run_ops E [] reg = reg"
| "run_ops E (c # cs) reg = run_ops E cs (fst (run_op E c reg))"

subsection \<open>Dispatch\<close>

text \<open>
  A handler is arbitrary code: it transforms the whole program state, of which the
  registry is a part (a handler may call back into the registry), and may raise.
  Whatever it did before raising stays done.
\<close>

record 'a pstate =
  registry :: registry
  app :: 'a

type_synonym 'a behaviour = "callable \<Rightarrow> msg \<Rightarrow> 'a pstate \<Rightarrow> 'a pstate \<times> exc option"

text \<open>
  What one call of \<^verbatim>\<open>publish\<close> or \<^verbatim>\<open>batch_publish\<close> has done so far:
  the state, the calls \<^verbatim>\<open>subscriber(message)\<close> evaluated, in order, the coroutines
  handed to \<^verbatim>\<open>asyncio.create_task\<close>, the bucket copies taken, and the exception on
  its way to the caller.
\<close>

record 'a run =
  state :: "'a pstate"
  calls :: "(callable \<times> msg) list"
  scheduled :: "(callable \<times> msg) list"
  snapshots :: "(ty \<times> callable fset) list"
  raised :: "exc option"

definition start :: "'a pstate \<Rightarrow> 'a run" where
  "start s = \<lparr>state = s, calls = [], scheduled = [], snapshots = [], raised = None\<rparr>"

text \<open>A \<^verbatim>\<open>for\<close> loop whose body may raise: the first raise ends the loop.\<close>

fun for_each :: "('x \<Rightarrow> 'a run \<Rightarrow> 'a run) \<Rightarrow> 'x list \<Rightarrow> 'a run \<Rightarrow> 'a run" where
  "for_each body [] r = r"
| "for_each body (x # xs) r =
     (let r' = body x r in if raised r' = None then for_each body xs r' else r')"

text \<open>The plain call \<^verbatim>\<open>subscriber(message)\<close> of a synchronous handler.\<close>

definition call :: "'a behaviour \<Rightarrow> callable \<Rightarrow> msg \<Rightarrow> 'a run \<Rightarrow> 'a run" where
  "call beh h m r =
     (case beh h m (state r) of
        (s', e) \<Rightarrow> r\<lparr>state := s', calls := calls r @ [(h, m)], raised := e\<rparr>)"

text \<open>
  The body of the loop of \<^verbatim>\<open>publish\<close>. Calling a coroutine function only builds
  the coroutine; \<^verbatim>\<open>run_until_complete\<close> on the fresh loop then runs its body to the
  end and re-raises what it raised, unless the calling thread is already inside a running
  event loop (\<open>running\<close>), where it raises \<^verbatim>\<open>RuntimeError\<close> at once.
\<close>

definition publish_one :: "bool \<Rightarrow> pyenv \<Rightarrow> 'a behaviour \<Rightarrow> msg \<Rightarrow> callable \<Rightarrow> 'a run \<Rightarrow> 'a run" where
  "publish_one running E beh message subscriber r =
     (if iscoroutinefunction E subscriber
      then (if running
            then r\<lparr>calls := calls r @ [(subscriber, message)], raised := Some RuntimeError\<rparr>
            else call beh subscriber message r)
      else call beh subscriber message r)"

text \<open>
  \<open>ord\<close> is the order in which Python iterates over a set; nothing is known of it
  but that it visits every element once.
\<close>

definition enumerates :: "(callable fset \<Rightarrow> callable list) \<Rightarrow> bool" where
  "enumerates ord = (\<forall>S. fset_of_list (ord S) = S \<and> distinct (ord S))"

text \<open>The run of \<^verbatim>\<open>publish\<close> as it leaves the lock, the copy of the bucket taken.\<close>

definition snapshot_taken :: "msg \<Rightarrow> token \<Rightarrow> 'a pstate \<Rightarrow> 'a run" where
  "snapshot_taken message tok s =
     (let message_type = type_of message;
          subs = snapshot (registry s) message_type tok
      in (start s)\<lparr>snapshots := [(message_type, subs)]\<rparr>)"

definition publish ::
  "bool \<Rightarrow> pyenv \<Rightarrow> 'a behaviour \<Rightarrow> (callable fset \<Rightarrow> callable list) \<Rightarrow> msg \<Rightarrow> token \<Rightarrow> 'a pstate \<Rightarrow> 'a run" where
  "publish running E beh ord message tok s =
     (let message_type = type_of message;
          subs = snapshot (registry s) message_type tok
      in for_each (publish_one running E beh message) (ord subs) (snapshot_taken message tok s))"

text \<open>
  The body of the inner loop of \<^verbatim>\<open>batch_publish\<close>:
  \<^verbatim>\<open>asyncio.create_task\<close> queues the coroutine on the running loop and raises
  \<^verbatim>\<open>RuntimeError\<close> when there is none.
\<close>

definition batch_one :: "bool \<Rightarrow> pyenv \<Rightarrow> 'a behaviour \<Rightarrow> callable \<Rightarrow> msg \<Rightarrow> 'a run \<Rightarrow> 'a run" where
  "batch_one running E beh subscriber m r =
     (if iscoroutinefunction E subscriber
      then (if running
            then r\<lparr>calls := calls r @ [(subscriber, m)], scheduled := scheduled r @ [(subscriber, m)]\<rparr>
            else r\<lparr>calls := calls r @ [(subscriber, m)], raised := Some RuntimeError\<rparr>)
      else call beh subscriber m r)"

text \<open>
  \<^verbatim>\<open>message_groups[type(msg)].append(msg)\<close> on a dictionary, which keeps its keys
  in the order of their first insertion.
\<close>

fun group_append :: "msg \<Rightarrow> (ty \<times> msg list) list \<Rightarrow> (ty \<times> msg list) list" where
  "group_append m [] = [(type_of m, [m])]"
| "group_append m ((T, ms) # gs) =
     (if T = type_of m then (T, ms @ [m]) # gs else (T, ms) # group_append m gs)"

definition group_messages :: "msg list \<Rightarrow> (ty \<times> msg list) list" where
  "group_messages messages = foldl (\<lambda>gs m. group_append m gs) [] messages"

definition deliver_group ::
  "bool \<Rightarrow> pyenv \<Rightarrow> 'a behaviour \<Rightarrow> (callable fset \<Rightarrow> callable list) \<Rightarrow> token \<Rightarrow> ty \<times> msg list \<Rightarrow> 'a run \<Rightarrow> 'a run" where
  "deliver_group running E beh ord tok g r =
     (case g of (msg_type, msgs) \<Rightarrow>
        (let subs = snapshot (registry (state r)) msg_type tok
         in for_each (\<lambda>subscriber. for_each (batch_one running E beh subscriber) msgs) (ord subs)
              (r\<lparr>snapshots := snapshots r @ [(msg_type, subs)]\<rparr>)))"

definition batch_publish ::
  "bool \<Rightarrow> pyenv \<Rightarrow> 'a behaviour \<Rightarrow> (callable fset \<Rightarrow> callable list) \<Rightarrow> msg list \<Rightarrow> token \<Rightarrow> 'a pstate \<Rightarrow> 'a run" where
  "batch_publish running E beh ord messages tok s =
     (if messages = [] then start s
      else for_each (deliver_group running E beh ord tok) (group_messages messages) (start s))"

text \<open>The bodies of the handlers \<open>hs\<close> run to the end one after the other on \<open>m\<close>.\<close>

fun run_all :: "'a behaviour \<Rightarrow> msg \<Rightarrow> callable list \<Rightarrow> 'a pstate \<Rightarrow> 'a pstate" where
  "run_all beh m [] s = s"
| "run_all beh m (h # hs) s = run_all beh m hs (fst (beh h m s))"

text \<open>
  What it means for \<open>gs\<close> to be the messages \<open>seen\<close> partitioned by type: one
  group for each type that occurs, holding the messages of that type in their order.
\<close>

definition grouped :: "(ty \<times> msg list) list \<Rightarrow> msg list \<Rightarrow> bool" where
  "grouped gs seen =
     (distinct (map fst gs) \<and> set (map fst gs) = type_of ` set seen \<and>
      (\<forall>(T, ms) \<in> set gs. ms = filter (\<lambda>x. type_of x = T) seen))"

text \<open>
  The calls owed to one bucket copy \<open>S\<close> taken for the type \<open>T\<close>: each handler of
  the copy, in iteration order, with all the messages of that type, in their order.
\<close>

definition deliveries ::
  "(callable fset \<Rightarrow> callable list) \<Rightarrow> msg list \<Rightarrow> ty \<times> callable fset \<Rightarrow> (callable \<times> msg) list" where
  "deliveries ord messages g =
     (case g of (T, S) \<Rightarrow>
        concat (map (\<lambda>h. map (Pair h) (filter (\<lambda>x. type_of x = T) messages)) (ord S)))"

subsection \<open>The single instance\<close>







subsection \<open>A concrete program\<close>

text \<open>
  Handlers used in the examples: function 1 takes a \<^verbatim>\<open>str\<close>, records the call and
  raises; function 3 takes an \<^verbatim>\<open>int\<close>; function 4 has two parameters; function 5
  has no annotation; function 6 is a coroutine function; function 7 unsubscribes
  function 8 when called; callable 9 is a \<^verbatim>\<open>functools.partial\<close> of a function that
  takes a \<^verbatim>\<open>str\<close>, and has no \<^verbatim>\<open>__name__\<close>; every other function, and the \<^verbatim>\<open>receive\<close> of every
  receiver, takes a \<^verbatim>\<open>str\<close> and records the call. Receiver 1 carries the token
  \<^verbatim>\<open>"grp1"\<close>.
\<close>

fun example_signature :: "callable \<Rightarrow> ty option list" where
  "example_signature (Func n) =
     (if n = 3 then [Some IntT]
      else if n = 4 then [Some StrT, Some StrT]
      else if n = 5 then [None]
      else [Some StrT])"
| "example_signature (Method r) = [Some StrT]"

definition E0 :: pyenv where
  "E0 = \<lparr>signature = example_signature,
         iscoroutinefunction = (\<lambda>h. h = Func 6),
         token_attr = (\<lambda>r. if r = 1 then Some (Token ''grp1'') else None),
         has_name = (\<lambda>h. h \<noteq> Func 9)\<rparr>"

definition record_call :: "callable \<Rightarrow> msg \<Rightarrow> (callable \<times> msg) list pstate \<Rightarrow> (callable \<times> msg) list pstate" where
  "record_call h m s = s\<lparr>app := app s @ [(h, m)]\<rparr>"

definition beh0 :: "(callable \<times> msg) list behaviour" where
  "beh0 h m s =
     (if h = Func 1 then (record_call h m s, Some (Exc ''boom''))
      else if h = Func 7
      then ((record_call h m s)\<lparr>registry := fst (unsubscribe E0 (Func 8) (registry s))\<rparr>, None)
      else (record_call h m s, None))"

text \<open>The same handlers without function 7: none of them touches the registry.\<close>

definition beh1 :: "(callable \<times> msg) list behaviour" where
  "beh1 h m s =
     (if h = Func 1 then (record_call h m s, Some (Exc ''boom''))
      else (record_call h m s, None))"

text \<open>One iteration order among the possible ones: functions before methods, by number.\<close>

fun key :: "callable \<Rightarrow> nat" where
  "key (Func n) = 2 * n"
| "key (Method r) = 2 * r + 1"

definition unkey :: "nat \<Rightarrow> callable" where
  "unkey k = (if even k then Func (k div 2) else Method (k div 2))"

definition by_key :: "callable fset \<Rightarrow> callable list" where
  "by_key S = map unkey (sorted_list_of_fset (key |`| S))"

text \<open>A registry with function 2 under the token \<^verbatim>\<open>"a"\<close> and receiver 1 under its own.\<close>

definition R0 :: registry where
  "R0 = fst (subscribeReceiver E0 1 (fst (subscribe E0 (Func 2) (Token ''a'') empty_registry)))"

text \<open>The registry calls that take \<open>h\<close> out of its buckets.\<close>

fun removes :: "op \<Rightarrow> callable \<Rightarrow> bool" where
  "removes (Unsubscribe h') h = (h' = h)"
| "removes (UnsubscribeReceiver r) h = (h = Method r)"
| "removes (Subscribe h' tok) h = False"
| "removes (SubscribeReceiver r) h = False"

text \<open>Every callable sits under the type that its own signature declares.\<close>

definition well_typed :: "pyenv \<Rightarrow> registry \<Rightarrow> bool" where
  "well_typed E reg = (\<forall>T t h. h |\<in>| snapshot reg T t \<longrightarrow> get_parameter_type E h = Inr T)"

text \<open>The token under which \<^verbatim>\<open>subscribeReceiver\<close> files a receiver.\<close>

definition receiver_token :: "pyenv \<Rightarrow> nat \<Rightarrow> token" where
  "receiver_token E r = (case token_attr E r of None \<Rightarrow> NoToken | Some t \<Rightarrow> t)"

text \<open>
  A callable that sits in a bucket is in the identity set, or is the bound method of a
  receiver and sits under the token of that receiver.
\<close>

definition handlers_tracked :: "pyenv \<Rightarrow> registry \<Rightarrow> bool" where
  "handlers_tracked E reg =
     (\<forall>T t h. h |\<in>| snapshot reg T t \<longrightarrow>
        Handler h |\<in>| subscriberSet reg \<or> (\<exists>r. h = Method r \<and> t = receiver_token E r))"

subsection \<open>A client of the class\<close>

text \<open>
  A client evaluates \<^verbatim>\<open>Messager()\<close> and keeps the reference, or makes a registry
  call through the \<open>k\<close>-th reference it holds.
\<close>

datatype step = Construct | Call nat op





text \<open>Function 1, which raises, and function 2 under the same type and token.\<close>

definition R1 :: registry where
  "R1 = fst (subscribe E0 (Func 2) (Token ''a'') (fst (subscribe E0 (Func 1) (Token ''a'') empty_registry)))"

text \<open>Functions 0, 1 and 2 under the same type and token; function 1 raises.\<close>

definition R2 :: registry where
  "R2 = run_ops E0 [Subscribe (Func 0) (Token ''a''), Subscribe (Func 1) (Token ''a''),
                    Subscribe (Func 2) (Token ''a'')] empty_registry"

text \<open>Function 3, which takes an \<^verbatim>\<open>int\<close>, and function 2 under one token.\<close>

definition R3 :: registry where
  "R3 = run_ops E0 [Subscribe (Func 3) (Token ''n''), Subscribe (Func 2) (Token ''n'')] empty_registry"

text \<open>Function 1, which raises, alone; and function 2 alone.\<close>

definition R4 :: registry where
  "R4 = fst (subscribe E0 (Func 1) (Token ''a'') empty_registry)"

definition R5 :: registry where
  "R5 = fst (subscribe E0 (Func 2) (Token ''a'') empty_registry)"

text \<open>The coroutine function 6 alone; and function 2 with the coroutine function 6.\<close>

definition R6 :: registry where
  "R6 = fst (subscribe E0 (Func 6) (Token ''a'') empty_registry)"

definition R7 :: registry where
  "R7 = run_ops E0 [Subscribe (Func 2) (Token ''a''), Subscribe (Func 6) (Token ''a'')] empty_registry"

text \<open>Handlers that differ from those of \<open>beh1\<close> in the body of the coroutine function.\<close>

definition beh2 :: "(callable \<times> msg) list behaviour" where
  "beh2 h m s = (if h = Func 6 then (s, Some (Exc ''never'')) else beh1 h m s)"

text \<open>The messages \<^verbatim>\<open>["a", "b", "c"]\<close>.\<close>

definition abc :: "msg list" where
  "abc = [StrV ''a'', StrV ''b'', StrV ''c'']"

section \<open>Properties\<close>

subsection \<open>The registry seen through its buckets and its identity set\<close>


lemma get_parameter_type_cases:
  "get_parameter_type E h = Inr T \<longleftrightarrow> signature E h = [Some T]"
  "get_parameter_type E h = Inl e \<longleftrightarrow>
     (length (signature E h) \<noteq> 1 \<and> e = ValueError NotOneParameter) \<or>
     (signature E h = [None] \<and> e = ValueError NoAnnotation)"
  by (cases "signature E h"; cases "tl (signature E h)"; cases "hd (signature E h)";
      auto simp: get_parameter_type_def Let_def)+

lemma subscriberSet_prims [simp]:
  "subscriberSet (ensure_type T reg) = subscriberSet reg"
  "subscriberSet (ensure_token T tok reg) = subscriberSet reg"
  "subscriberSet (bucket_add T tok h reg) = subscriberSet reg"
  "subscriberSet (discard_everywhere T h reg) = subscriberSet reg"
  by (auto simp: ensure_type_def ensure_token_def bucket_add_def discard_everywhere_def
           split: option.splits)

lemma snapshot_subscriberSet_update [simp]:
  "snapshot (reg\<lparr>subscriberSet := X\<rparr>) T t = snapshot reg T t"
  by (simp add: snapshot_def)

lemma snapshot_ensure_type [simp]: "snapshot (ensure_type T' reg) T t = snapshot reg T t"
  by (auto simp: snapshot_def ensure_type_def)

lemma snapshot_ensure_token [simp]: "snapshot (ensure_token T' tok reg) T t = snapshot reg T t"
  by (auto simp: snapshot_def ensure_token_def split: option.splits)

lemma snapshot_add:
  "snapshot (bucket_add T' tok h (ensure_token T' tok (ensure_type T' reg))) T t =
     (if T = T' \<and> t = tok then finsert h (snapshot reg T t) else snapshot reg T t)"
  by (auto simp: snapshot_def bucket_add_def ensure_token_def ensure_type_def split: option.splits)

lemma snapshot_discard [simp]:
  "snapshot (discard_everywhere T' h reg) T t =
     (if T = T' then snapshot reg T t |-| {|h|} else snapshot reg T t)"
  by (auto simp: snapshot_def discard_everywhere_def split: option.splits)

lemma snapshot_empty [simp]: "snapshot empty_registry T t = {||}"
  by (simp add: snapshot_def empty_registry_def)

lemma bucket_add_subscriberSet_update:
  "bucket_add T tok h (reg\<lparr>subscriberSet := X\<rparr>) = (bucket_add T tok h reg)\<lparr>subscriberSet := X\<rparr>"
  by (auto simp: bucket_add_def split: option.splits)

lemma get_parameter_type_raises_iff:
  "(\<exists>e. get_parameter_type E h = Inl e) \<longleftrightarrow>
     length (signature E h) \<noteq> 1 \<or> signature E h = [None]"
  by (auto simp: get_parameter_type_cases)

lemma subscribe_raises_iff':
  "snd (subscribe E h tok reg) \<noteq> None \<longleftrightarrow>
     Handler h |\<in>| subscriberSet reg \<or> (\<exists>e. get_parameter_type E h = Inl e)"
  by (cases "get_parameter_type E h") (auto simp: subscribe_def Let_def)

lemma subscribe_raises_iff:
  "snd (subscribe E h tok reg) \<noteq> None \<longleftrightarrow>
     Handler h |\<in>| subscriberSet reg \<or> length (signature E h) \<noteq> 1 \<or> signature E h = [None]"
  unfolding subscribe_raises_iff' get_parameter_type_raises_iff ..

lemma subscribeReceiver_raises_iff':
  "snd (subscribeReceiver E r reg) \<noteq> None \<longleftrightarrow>
     Receiver r |\<in>| subscriberSet reg \<or> (\<exists>e. get_parameter_type E (Method r) = Inl e)"
  by (cases "get_parameter_type E (Method r)") (auto simp: subscribeReceiver_def Let_def)

lemma subscribeReceiver_raises_iff:
  "snd (subscribeReceiver E r reg) \<noteq> None \<longleftrightarrow>
     Receiver r |\<in>| subscriberSet reg \<or> length (signature E (Method r)) \<noteq> 1
       \<or> signature E (Method r) = [None]"
  unfolding subscribeReceiver_raises_iff' get_parameter_type_raises_iff ..

lemma subscribe_raises_unchanged:
  "snd (subscribe E h tok reg) \<noteq> None \<Longrightarrow> fst (subscribe E h tok reg) = reg"
  by (auto simp: subscribe_def Let_def split: sum.splits if_splits)

lemma subscribeReceiver_raises_unchanged:
  "snd (subscribeReceiver E r reg) \<noteq> None \<Longrightarrow> fst (subscribeReceiver E r reg) = reg"
  by (auto simp: subscribeReceiver_def Let_def split: sum.splits if_splits)

lemma subscribe_ok_iff:
  "snd (subscribe E h tok reg) = None \<longleftrightarrow>
     Handler h |\<notin>| subscriberSet reg \<and> (\<exists>T. get_parameter_type E h = Inr T)"
  by (cases "get_parameter_type E h") (auto simp: subscribe_def Let_def)

lemma subscribeReceiver_ok_iff:
  "snd (subscribeReceiver E r reg) = None \<longleftrightarrow>
     Receiver r |\<notin>| subscriberSet reg \<and> (\<exists>T. get_parameter_type E (Method r) = Inr T)"
  by (cases "get_parameter_type E (Method r)") (auto simp: subscribeReceiver_def Let_def)

lemma subscriberSet_subscribe:
  "subscriberSet (fst (subscribe E h tok reg)) =
     (if snd (subscribe E h tok reg) = None then finsert (Handler h) (subscriberSet reg)
      else subscriberSet reg)"
  by (auto simp: subscribe_def Let_def split: sum.splits)

lemma subscriberSet_subscribeReceiver:
  "subscriberSet (fst (subscribeReceiver E r reg)) =
     (if snd (subscribeReceiver E r reg) = None then finsert (Receiver r) (subscriberSet reg)
      else subscriberSet reg)"
  by (auto simp: subscribeReceiver_def Let_def split: sum.splits)

lemma subscriberSet_unsubscribe:
  "subscriberSet (fst (unsubscribe E h reg)) =
     (if snd (unsubscribe E h reg) = None then subscriberSet reg |-| {|Handler h|}
      else subscriberSet reg)"
  by (auto simp: unsubscribe_def Let_def split: sum.splits)

lemma subscriberSet_unsubscribeReceiver:
  "subscriberSet (fst (unsubscribeReceiver E r reg)) =
     (if snd (unsubscribeReceiver E r reg) = None then subscriberSet reg |-| {|Receiver r|}
      else subscriberSet reg)"
  by (auto simp: unsubscribeReceiver_def Let_def split: sum.splits)

lemma snapshot_subscribe:
  "snapshot (fst (subscribe E h tok reg)) T t =
     (if snd (subscribe E h tok reg) = None \<and> get_parameter_type E h = Inr T \<and> t = tok
      then finsert h (snapshot reg T t) else snapshot reg T t)"
  by (auto simp: subscribe_def Let_def bucket_add_subscriberSet_update snapshot_add
           split: sum.splits)

lemma snapshot_subscribeReceiver:
  "snapshot (fst (subscribeReceiver E r reg)) T t =
     (if snd (subscribeReceiver E r reg) = None \<and> get_parameter_type E (Method r) = Inr T
         \<and> t = (case token_attr E r of None \<Rightarrow> NoToken | Some t' \<Rightarrow> t')
      then finsert (Method r) (snapshot reg T t) else snapshot reg T t)"
  by (auto simp: subscribeReceiver_def Let_def bucket_add_subscriberSet_update snapshot_add
           split: sum.splits)

lemma snapshot_unsubscribe:
  "snapshot (fst (unsubscribe E h reg)) T t =
     (if get_parameter_type E h = Inr T then snapshot reg T t |-| {|h|} else snapshot reg T t)"
  by (auto simp: unsubscribe_def Let_def split: sum.splits)

lemma snapshot_unsubscribeReceiver:
  "snapshot (fst (unsubscribeReceiver E r reg)) T t =
     (if get_parameter_type E (Method r) = Inr T then snapshot reg T t |-| {|Method r|}
      else snapshot reg T t)"
  by (auto simp: unsubscribeReceiver_def Let_def split: sum.splits)

subsection \<open>Evaluating the examples\<close>

lemmas example_defs = E0_def get_parameter_type_def empty_registry_def ensure_type_def ensure_token_def
  bucket_add_def snapshot_def subscribe_def subscribeReceiver_def unsubscribe_def
  unsubscribeReceiver_def discard_everywhere_def Let_def

lemma sorted_list_of_fset_empty: "sorted_list_of_fset {||} = ([]::nat list)"
  by (simp add: sorted_list_of_fset.rep_eq)

lemma sorted_list_of_fset_finsert:
  "sorted_list_of_fset (finsert x S) = insort (x::nat) (sorted_list_of_fset (S |-| {|x|}))"
  by (simp add: sorted_list_of_fset.rep_eq)

lemma key_unkey: "unkey (key h) = h"
  by (cases h) (simp_all add: unkey_def)

lemma enumerates_by_key: "enumerates by_key"
  unfolding enumerates_def by_key_def
proof (intro allI conjI)
  fix S :: "callable fset"
  have "fset_of_list (map unkey (sorted_list_of_fset (key |`| S))) = unkey |`| (key |`| S)"
    by simp
  also have "\<dots> = S" by (simp add: comp_def key_unkey)
  finally show "fset_of_list (map unkey (sorted_list_of_fset (key |`| S))) = S" .
  have "inj_on unkey (set (sorted_list_of_fset (key |`| S)))"
    by (rule inj_onI) (auto simp: key_unkey)
  moreover have "distinct (sorted_list_of_fset (key |`| S))"
    by (simp add: sorted_list_of_fset.rep_eq)
  ultimately show "distinct (map unkey (sorted_list_of_fset (key |`| S)))"
    by (simp add: distinct_map)
qed


subsection \<open>Failed subscriptions\<close>

text \<open>
  Claim C10. \<^verbatim>\<open>subscribe\<close> and \<^verbatim>\<open>subscribeReceiver\<close> raise exactly when the
  identity is already in the identity set, the handler does not have exactly one
  parameter, or its parameter has no annotation; and whenever they raise, the table and
  the identity set are what they were before the call.
\<close>

theorem subscribe_failure_atomic:
  "(snd (subscribe E h tok reg) \<noteq> None \<longleftrightarrow>
      Handler h |\<in>| subscriberSet reg \<or> length (signature E h) \<noteq> 1 \<or> signature E h = [None])
   \<and> (snd (subscribe E h tok reg) \<noteq> None \<longrightarrow> fst (subscribe E h tok reg) = reg)
   \<and> (snd (subscribeReceiver E r reg) \<noteq> None \<longleftrightarrow>
      Receiver r |\<in>| subscriberSet reg \<or> length (signature E (Method r)) \<noteq> 1
        \<or> signature E (Method r) = [None])
   \<and> (snd (subscribeReceiver E r reg) \<noteq> None \<longrightarrow> fst (subscribeReceiver E r reg) = reg)"
  using subscribe_raises_iff [of E h tok reg] subscribe_raises_unchanged [of E h tok reg]
    subscribeReceiver_raises_iff [of E r reg] subscribeReceiver_raises_unchanged [of E r reg]
  by blast

theorem subscribe_failure_atomic_witness:
  "snd (subscribe E0 (Func 4) NoToken R0) = Some (ValueError NotOneParameter)
   \<and> fst (subscribe E0 (Func 4) NoToken R0) = R0
   \<and> snd (subscribeReceiver E0 1 R0) = Some (ValueError AlreadySubscribed)
   \<and> fst (subscribeReceiver E0 1 R0) = R0"
proof -
  have a: "snd (subscribe E0 (Func 4) NoToken R0) = Some (ValueError NotOneParameter)"
    by (simp add: R0_def example_defs)
  have b: "snd (subscribeReceiver E0 1 R0) = Some (ValueError AlreadySubscribed)"
    by (simp add: R0_def example_defs)
  from a b subscribe_failure_atomic [of E0 "Func 4" NoToken R0 1] show ?thesis
    by simp
qed

subsection \<open>Subscribing twice\<close>

lemma run_op_keeps_member:
  assumes "Handler h |\<in>| subscriberSet reg" and "c \<noteq> Unsubscribe h"
  shows "Handler h |\<in>| subscriberSet (fst (run_op E c reg))"
  using assms
  by (cases c)
     (auto simp: subscriberSet_subscribe subscriberSet_subscribeReceiver
        subscriberSet_unsubscribe subscriberSet_unsubscribeReceiver)

lemma run_ops_keeps_member:
  assumes "Handler h |\<in>| subscriberSet reg" and "Unsubscribe h \<notin> set ops"
  shows "Handler h |\<in>| subscriberSet (run_ops E ops reg)"
  using assms
proof (induction ops arbitrary: reg)
  case Nil
  then show ?case by simp
next
  case (Cons c cs)
  from Cons.prems have "Handler h |\<in>| subscriberSet (fst (run_op E c reg))"
    by (intro run_op_keeps_member) auto
  with Cons show ?case by simp
qed

lemma subscribe_duplicate:
  "Handler h |\<in>| subscriberSet reg \<Longrightarrow>
     subscribe E h tok reg
       = (reg, Some (if has_name E h then ValueError AlreadySubscribed else AttributeError))"
  by (simp add: subscribe_def)

lemma subscribeReceiver_duplicate:
  "Receiver r |\<in>| subscriberSet reg \<Longrightarrow>
     subscribeReceiver E r reg = (reg, Some (ValueError AlreadySubscribed))"
  by (simp add: subscribeReceiver_def)

text \<open>
  Once \<^verbatim>\<open>subscribe(h, t)\<close> has succeeded, and whatever registry calls other than
  \<^verbatim>\<open>unsubscribe(h)\<close> follow, \<^verbatim>\<open>subscribe(h, t')\<close> raises for every token
  \<open>t'\<close> and changes nothing: the duplicate \<^verbatim>\<open>ValueError\<close> for a callable that has
  a \<^verbatim>\<open>__name__\<close>, \<^verbatim>\<open>AttributeError\<close> for one that has not.
\<close>

lemma resubscribe_raises_general:
  assumes "snd (subscribe E h t reg) = None" and "Unsubscribe h \<notin> set ops"
  shows "subscribe E h t' (run_ops E ops (fst (subscribe E h t reg))) =
           (run_ops E ops (fst (subscribe E h t reg)),
            Some (if has_name E h then ValueError AlreadySubscribed else AttributeError))"
proof -
  from assms(1) have "Handler h |\<in>| subscriberSet (fst (subscribe E h t reg))"
    by (simp add: subscriberSet_subscribe)
  then have "Handler h |\<in>| subscriberSet (run_ops E ops (fst (subscribe E h t reg)))"
    using assms(2) by (rule run_ops_keeps_member)
  then show ?thesis by (rule subscribe_duplicate)
qed

lemma resubscribe_named_example:
  "snd (subscribe E0 (Func 2) (Token ''grp1'') empty_registry) = None
   \<and> snd (subscribe E0 (Func 2) (Token ''grp2'')
        (run_ops E0 [SubscribeReceiver 1, Unsubscribe (Func 8), Subscribe (Func 3) NoToken]
           (fst (subscribe E0 (Func 2) (Token ''grp1'') empty_registry))))
       = Some (ValueError AlreadySubscribed)"
proof -
  have a: "snd (subscribe E0 (Func 2) (Token ''grp1'') empty_registry) = None"
    by (simp add: example_defs)
  have b: "Unsubscribe (Func 2) \<notin> set [SubscribeReceiver 1, Unsubscribe (Func 8), Subscribe (Func 3) NoToken]"
    by simp
  have c: "has_name E0 (Func 2)"
    by (simp add: E0_def)
  from resubscribe_raises_general [OF a b, of "Token ''grp2''"] a c show ?thesis
    by simp
qed

text \<open>
  Claim C3 at a subscribed \<^verbatim>\<open>functools.partial\<close> object, a callable that has no
  \<^verbatim>\<open>__name__\<close>: the first \<^verbatim>\<open>subscribe\<close> succeeds, and the second raises
  \<^verbatim>\<open>AttributeError\<close> where the claim has the duplicate error, leaving the registry as
  it was.
\<close>

theorem resubscribe_without_name_raises_attribute_error:
  "signature E0 (Func 9) = [Some StrT]
   \<and> \<not> has_name E0 (Func 9)
   \<and> snd (subscribe E0 (Func 9) (Token ''grp1'') empty_registry) = None
   \<and> snd (subscribe E0 (Func 9) (Token ''grp2'')
            (fst (subscribe E0 (Func 9) (Token ''grp1'') empty_registry))) = Some AttributeError
   \<and> snd (subscribe E0 (Func 9) (Token ''grp2'')
            (fst (subscribe E0 (Func 9) (Token ''grp1'') empty_registry)))
       \<noteq> Some (ValueError AlreadySubscribed)
   \<and> fst (subscribe E0 (Func 9) (Token ''grp2'')
            (fst (subscribe E0 (Func 9) (Token ''grp1'') empty_registry)))
       = fst (subscribe E0 (Func 9) (Token ''grp1'') empty_registry)"
  by (simp add: example_defs)

subsection \<open>What the identity set holds\<close>

text \<open>
  Claim C4, as stated, fails: after \<^verbatim>\<open>subscribeReceiver(r)\<close> the bound method
  \<^verbatim>\<open>r.receive\<close> sits in a bucket, yet \<^verbatim>\<open>subscribe(r.receive)\<close> succeeds, and
  so does \<^verbatim>\<open>subscribeReceiver(r)\<close> after \<^verbatim>\<open>subscribe(r.receive)\<close>.
\<close>

theorem receiver_method_identity_counterexample:
  "Method 1 |\<in>| snapshot (fst (subscribeReceiver E0 1 empty_registry)) StrT (Token ''grp1'')
   \<and> snd (subscribe E0 (Method 1) (Token ''grp2'') (fst (subscribeReceiver E0 1 empty_registry))) = None
   \<and> Handler (Method 1) |\<in>| subscriberSet (fst (subscribe E0 (Method 1) NoToken empty_registry))
   \<and> snd (subscribeReceiver E0 1 (fst (subscribe E0 (Method 1) NoToken empty_registry))) = None"
  by (simp add: example_defs)
lemma get_parameter_type_not_duplicate:
  "get_parameter_type E h \<noteq> Inl (ValueError AlreadySubscribed)"
  by (simp add: get_parameter_type_cases)

text \<open>
  Claim C4, amended. The identity set holds the callable itself for \<^verbatim>\<open>subscribe\<close>
  and the receiver object itself for \<^verbatim>\<open>subscribeReceiver\<close>. For a callable \<open>h\<close>
  that has a \<^verbatim>\<open>__name__\<close>, \<^verbatim>\<open>subscribe(h)\<close> raises the duplicate error exactly
  when \<open>h\<close> is in the set; \<^verbatim>\<open>subscribeReceiver(r)\<close> raises it exactly when the
  receiver \<open>r\<close> is, whatever the type and the token; a success adds that one identity.
\<close>

theorem identity_set_rejects:
  "(Handler h |\<in>| subscriberSet reg \<and> has_name E h \<longrightarrow>
      subscribe E h tok reg = (reg, Some (ValueError AlreadySubscribed)))
   \<and> (Receiver r |\<in>| subscriberSet reg \<longrightarrow>
      subscribeReceiver E r reg = (reg, Some (ValueError AlreadySubscribed)))
   \<and> (snd (subscribe E h tok reg) = None \<longrightarrow>
      subscriberSet (fst (subscribe E h tok reg)) = finsert (Handler h) (subscriberSet reg))
   \<and> (snd (subscribeReceiver E r reg) = None \<longrightarrow>
      subscriberSet (fst (subscribeReceiver E r reg)) = finsert (Receiver r) (subscriberSet reg))
   \<and> (snd (subscribe E h tok reg) = Some (ValueError AlreadySubscribed) \<longrightarrow>
      Handler h |\<in>| subscriberSet reg)
   \<and> (snd (subscribeReceiver E r reg) = Some (ValueError AlreadySubscribed) \<longrightarrow>
      Receiver r |\<in>| subscriberSet reg)"
proof -
  have a: "snd (subscribe E h tok reg) = Some (ValueError AlreadySubscribed) \<longrightarrow>
      Handler h |\<in>| subscriberSet reg"
    by (cases "get_parameter_type E h")
       (use get_parameter_type_not_duplicate [of E h] in
          \<open>auto simp: subscribe_def Let_def split: if_splits\<close>)
  have b: "snd (subscribeReceiver E r reg) = Some (ValueError AlreadySubscribed) \<longrightarrow>
      Receiver r |\<in>| subscriberSet reg"
    by (cases "get_parameter_type E (Method r)")
       (use get_parameter_type_not_duplicate [of E "Method r"] in
          \<open>auto simp: subscribeReceiver_def Let_def split: if_splits\<close>)
  from a b show ?thesis
    by (simp add: subscribe_duplicate subscribeReceiver_duplicate subscriberSet_subscribe
          subscriberSet_subscribeReceiver)
qed

theorem identity_set_rejects_witness:
  "Handler (Func 2) |\<in>| subscriberSet R0 \<and> Receiver 1 |\<in>| subscriberSet R0
   \<and> Handler (Method 1) |\<notin>| subscriberSet R0
   \<and> has_name E0 (Func 2)
   \<and> subscribe E0 (Func 2) (Token ''grp2'') R0 = (R0, Some (ValueError AlreadySubscribed))
   \<and> subscribeReceiver E0 1 R0 = (R0, Some (ValueError AlreadySubscribed))
   \<and> snd (subscribe E0 (Func 8) NoToken R0) = None
   \<and> subscriberSet (fst (subscribe E0 (Func 8) NoToken R0)) = finsert (Handler (Func 8)) (subscriberSet R0)
   \<and> snd (subscribeReceiver E0 2 R0) = None
   \<and> subscriberSet (fst (subscribeReceiver E0 2 R0)) = finsert (Receiver 2) (subscriberSet R0)"
proof -
  have a: "Handler (Func 2) |\<in>| subscriberSet R0" "Receiver 1 |\<in>| subscriberSet R0"
    "Handler (Method 1) |\<notin>| subscriberSet R0"
    by (simp_all add: R0_def example_defs)
  have b: "snd (subscribe E0 (Func 8) NoToken R0) = None" "snd (subscribeReceiver E0 2 R0) = None"
    by (simp_all add: R0_def example_defs)
  have c: "has_name E0 (Func 2)"
    by (simp add: E0_def)
  from a b c identity_set_rejects [of "Func 2" R0 E0 "Token ''grp2''" 1]
    identity_set_rejects [of "Func 8" R0 E0 NoToken 2]
  show ?thesis by simp
qed

subsection \<open>Unsubscribing what was never subscribed\<close>

text \<open>
  For a handler with a well-formed signature that is in no bucket and not in the
  identity set, both calls return normally and leave the registry as it was; they raise
  exactly when the signature is not well-formed.
\<close>

lemma discard_everywhere_absent:
  assumes "\<forall>t. h |\<notin>| snapshot reg T t"
  shows "discard_everywhere T h reg = reg"
proof (cases "subscribers reg T")
  case None
  then show ?thesis by (simp add: discard_everywhere_def)
next
  case (Some tm)
  have "map_option (\<lambda>S. if h |\<in>| S then S |-| {|h|} else S) (tm tok) = tm tok" for tok
  proof (cases "tm tok")
    case None
    then show ?thesis by simp
  next
    case (Some S)
    with \<open>subscribers reg T = Some tm\<close> have "snapshot reg T tok = S"
      by (simp add: snapshot_def)
    with assms have "h |\<notin>| S" by auto
    with Some show ?thesis by simp
  qed
  then have "(\<lambda>tok. map_option (\<lambda>S. if h |\<in>| S then S |-| {|h|} else S) (tm tok)) = tm"
    by (intro ext)
  with Some have "(subscribers reg)(T \<mapsto> (\<lambda>tok. map_option (\<lambda>S. if h |\<in>| S then S |-| {|h|} else S) (tm tok)))
      = subscribers reg"
    by (simp add: fun_upd_idem)
  with Some show ?thesis by (simp add: discard_everywhere_def)
qed

lemma unsubscribe_absent_noop:
  assumes "get_parameter_type E h = Inr T"
    and "\<forall>t. h |\<notin>| snapshot reg T t"
    and "Handler h |\<notin>| subscriberSet reg"
  shows "unsubscribe E h reg = (reg, None)"
  using assms by (simp add: unsubscribe_def Let_def discard_everywhere_absent)

lemma unsubscribeReceiver_absent_noop:
  assumes "get_parameter_type E (Method r) = Inr T"
    and "\<forall>t. Method r |\<notin>| snapshot reg T t"
    and "Receiver r |\<notin>| subscriberSet reg"
  shows "unsubscribeReceiver E r reg = (reg, None)"
  using assms by (simp add: unsubscribeReceiver_def Let_def discard_everywhere_absent)

lemma unsubscribe_raises_iff:
  "snd (unsubscribe E h reg) \<noteq> None \<longleftrightarrow> length (signature E h) \<noteq> 1 \<or> signature E h = [None]"
  unfolding get_parameter_type_raises_iff [symmetric]
  by (cases "get_parameter_type E h") (auto simp: unsubscribe_def Let_def)

text \<open>
  Claim C5 at a handler with two parameters that was never subscribed:
  \<^verbatim>\<open>unsubscribe\<close> introspects the handler before it looks anything up, and raises;
  so does \<^verbatim>\<open>unsubscribeReceiver\<close> for a receiver whose \<^verbatim>\<open>receive\<close> has no
  annotation.
\<close>

theorem unsubscribe_unknown_raises:
  "Handler (Func 4) |\<notin>| subscriberSet empty_registry
   \<and> (\<forall>T t. Func 4 |\<notin>| snapshot empty_registry T t)
   \<and> unsubscribe E0 (Func 4) empty_registry = (empty_registry, Some (ValueError NotOneParameter))
   \<and> unsubscribeReceiver (E0\<lparr>signature := (\<lambda>h. [None])\<rparr>) 1 empty_registry
        = (empty_registry, Some (ValueError NoAnnotation))"
  by (simp add: example_defs)

subsection \<open>One instance\<close>









subsection \<open>Loops that may raise, and the calls of publish\<close>

lemma for_each_append:
  "raised (for_each body xs r) = None \<Longrightarrow>
     for_each body (xs @ ys) r = for_each body ys (for_each body xs r)"
proof (induction xs arbitrary: r)
  case Nil
  then show ?case by simp
next
  case (Cons x xs)
  show ?case
  proof (cases "raised (body x r) = None")
    case True
    with Cons.prems have "raised (for_each body xs (body x r)) = None" by (simp add: Let_def)
    from Cons.IH [OF this] True show ?thesis by (simp add: Let_def)
  next
    case False
    with Cons.prems show ?thesis by (simp add: Let_def)
  qed
qed

lemma for_each_stops:
  assumes "raised (for_each body pre r) = None"
    and "raised (body x (for_each body pre r)) \<noteq> None"
  shows "for_each body (pre @ x # post) r = body x (for_each body pre r)"
proof -
  have "for_each body (pre @ x # post) r = for_each body (x # post) (for_each body pre r)"
    using assms(1) by (rule for_each_append)
  also have "\<dots> = body x (for_each body pre r)"
    using assms(2) by (auto simp: Let_def)
  finally show ?thesis .
qed

lemma calls_call [simp]: "calls (call beh h m r) = calls r @ [(h, m)]"
  by (simp add: call_def split: prod.splits)

lemma snapshots_call [simp]: "snapshots (call beh h m r) = snapshots r"
  by (simp add: call_def split: prod.splits)

lemma calls_publish_one [simp]:
  "calls (publish_one running E beh m h r) = calls r @ [(h, m)]"
  by (simp add: publish_one_def)

lemma calls_batch_one [simp]:
  "calls (batch_one running E beh h m r) = calls r @ [(h, m)]"
  by (simp add: batch_one_def)

lemma snapshots_batch_one [simp]:
  "snapshots (batch_one running E beh h m r) = snapshots r"
  by (simp add: batch_one_def)

lemma publish_loop_calls:
  "\<exists>k \<le> length hs.
     calls (for_each (publish_one running E beh m) hs r) = calls r @ map (\<lambda>h. (h, m)) (take k hs)
     \<and> (raised (for_each (publish_one running E beh m) hs r) = None \<longrightarrow> k = length hs)"
proof (induction hs arbitrary: r)
  case Nil
  then show ?case by simp
next
  case (Cons h hs)
  let ?body = "publish_one running E beh m"
  let ?r' = "?body h r"
  show ?case
  proof (cases "raised ?r' = None")
    case True
    then have step: "for_each ?body (h # hs) r = for_each ?body hs ?r'"
      by (simp add: Let_def)
    from Cons.IH [of ?r'] obtain k where k1: "k \<le> length hs"
      and k2: "calls (for_each ?body hs ?r') = calls ?r' @ map (\<lambda>h. (h, m)) (take k hs)"
      and k3: "raised (for_each ?body hs ?r') = None \<longrightarrow> k = length hs"
      by auto
    have a: "Suc k \<le> length (h # hs)" using k1 by simp
    have b: "calls (for_each ?body (h # hs) r)
        = calls r @ map (\<lambda>h. (h, m)) (take (Suc k) (h # hs))"
      unfolding step k2 by simp
    have c: "raised (for_each ?body (h # hs) r) = None \<longrightarrow> Suc k = length (h # hs)"
      unfolding step using k3 by simp
    from a b c show ?thesis by (intro exI [of _ "Suc k"]) simp
  next
    case False
    then have step: "for_each ?body (h # hs) r = ?r'"
      by (auto simp: Let_def)
    have a: "Suc 0 \<le> length (h # hs)" by simp
    have b: "calls (for_each ?body (h # hs) r)
        = calls r @ map (\<lambda>h. (h, m)) (take (Suc 0) (h # hs))"
      unfolding step by simp
    have c: "raised (for_each ?body (h # hs) r) = None \<longrightarrow> Suc 0 = length (h # hs)"
      unfolding step using False by auto
    from a b c show ?thesis by (intro exI [of _ "Suc 0"]) simp
  qed
qed

lemma filter_eq_distinct:
  "distinct xs \<Longrightarrow> filter (\<lambda>x. x = h) xs = (if h \<in> set xs then [h] else [])"
  by (induction xs) auto

lemma publish_calls:
  "\<exists>k \<le> length (ord (snapshot (registry s) (type_of m) t)).
     calls (publish running E beh ord m t s)
       = map (\<lambda>h. (h, m)) (take k (ord (snapshot (registry s) (type_of m) t)))
     \<and> (raised (publish running E beh ord m t s) = None
          \<longrightarrow> k = length (ord (snapshot (registry s) (type_of m) t)))"
  using publish_loop_calls [of "ord (snapshot (registry s) (type_of m) t)" running E beh m
      "(start s)\<lparr>snapshots := [(type_of m, snapshot (registry s) (type_of m) t)]\<rparr>"]
  by (simp add: publish_def snapshot_taken_def Let_def start_def)

lemma enumeratesD:
  assumes "enumerates ord"
  shows "set (ord S) = fset S" and "distinct (ord S)" and "h \<in> set (ord S) \<longleftrightarrow> h |\<in>| S"
proof -
  from assms have e: "fset_of_list (ord S) = S" and d: "distinct (ord S)"
    by (simp_all add: enumerates_def)
  from fset_of_list.rep_eq [of "ord S"] e show s: "set (ord S) = fset S" by simp
  from d show "distinct (ord S)" .
  from s show "h \<in> set (ord S) \<longleftrightarrow> h |\<in>| S" by simp
qed

lemma publish_calls_of:
  assumes "enumerates ord"
  shows "filter (\<lambda>c. fst c = h) (calls (publish running E beh ord m t s)) = [(h, m)]
      \<or> (filter (\<lambda>c. fst c = h) (calls (publish running E beh ord m t s)) = []
          \<and> (h |\<in>| snapshot (registry s) (type_of m) t
               \<longrightarrow> raised (publish running E beh ord m t s) \<noteq> None))"
proof -
  let ?hs = "ord (snapshot (registry s) (type_of m) t)"
  from publish_calls [of ord s m t running E beh] obtain k where k: "k \<le> length ?hs"
    "calls (publish running E beh ord m t s) = map (\<lambda>h. (h, m)) (take k ?hs)"
    "raised (publish running E beh ord m t s) = None \<longrightarrow> k = length ?hs"
    by auto
  have d: "distinct (take k ?hs)" using assms by (simp add: enumeratesD)
  have f: "filter (\<lambda>c. fst c = h) (map (\<lambda>h. (h, m)) (take k ?hs))
             = map (\<lambda>h. (h, m)) (filter (\<lambda>x. x = h) (take k ?hs))"
    by (simp add: filter_map comp_def)
  show ?thesis
  proof (cases "h \<in> set (take k ?hs)")
    case True
    with k f d show ?thesis by (simp add: filter_eq_distinct)
  next
    case False
    have "h |\<in>| snapshot (registry s) (type_of m) t \<longrightarrow> k \<noteq> length ?hs"
    proof
      assume "h |\<in>| snapshot (registry s) (type_of m) t"
      then have "h \<in> set ?hs" using assms by (simp add: enumeratesD)
      with False show "k \<noteq> length ?hs" by auto
    qed
    with False k f d show ?thesis by (auto simp: filter_eq_distinct)
  qed
qed

lemma publish_calls_in_snapshot:
  assumes "enumerates ord" and "(h, m') \<in> set (calls (publish running E beh ord m t s))"
  shows "m' = m \<and> h |\<in>| snapshot (registry s) (type_of m) t"
proof -
  let ?hs = "ord (snapshot (registry s) (type_of m) t)"
  from publish_calls [of ord s m t running E beh] obtain k where
    "calls (publish running E beh ord m t s) = map (\<lambda>h. (h, m)) (take k ?hs)"
    by auto
  with assms(2) have "m' = m" "h \<in> set (take k ?hs)" by auto
  then have "h \<in> set ?hs" by (auto dest: in_set_takeD)
  with assms(1) \<open>m' = m\<close> show ?thesis by (simp add: enumeratesD)
qed

subsection \<open>A subscribed handler is called\<close>

lemma run_op_keeps_bucket:
  assumes "h |\<in>| snapshot reg T t" and "\<not> removes c h"
  shows "h |\<in>| snapshot (fst (run_op E c reg)) T t"
  using assms
  by (cases c)
     (auto simp: snapshot_subscribe snapshot_subscribeReceiver snapshot_unsubscribe
        snapshot_unsubscribeReceiver)

lemma run_ops_keeps_bucket:
  assumes "h |\<in>| snapshot reg T t" and "\<forall>c \<in> set ops. \<not> removes c h"
  shows "h |\<in>| snapshot (run_ops E ops reg) T t"
  using assms
proof (induction ops arbitrary: reg)
  case Nil
  then show ?case by simp
next
  case (Cons c cs)
  from Cons.prems have "h |\<in>| snapshot (fst (run_op E c reg)) T t"
    by (intro run_op_keeps_bucket) auto
  with Cons show ?case by simp
qed

text \<open>
  \<^verbatim>\<open>unsubscribeReceiver(r)\<close> takes the bound method out of its buckets also when
  it was \<^verbatim>\<open>subscribe\<close> that put it there.
\<close>

lemma unsubscribeReceiver_takes_method_out:
  "Method 1 |\<in>| snapshot (fst (subscribe E0 (Method 1) (Token ''a'') empty_registry)) StrT (Token ''a'')
   \<and> snapshot (fst (unsubscribeReceiver E0 1
         (fst (subscribe E0 (Method 1) (Token ''a'') empty_registry)))) StrT (Token ''a'') = {||}"
  by (simp add: example_defs)

text \<open>
  Claim C1, amended. After \<^verbatim>\<open>subscribe(h, t)\<close> has succeeded for a handler whose
  declared type is the type of \<open>m\<close>, and whatever registry calls follow that are neither
  \<^verbatim>\<open>unsubscribe(h)\<close> nor \<^verbatim>\<open>unsubscribeReceiver\<close> of the receiver whose bound
  method \<open>h\<close> is, \<^verbatim>\<open>publish(m, t)\<close> calls \<open>h\<close> at most once, with \<open>m\<close>;
  it calls \<open>h\<close> exactly once whenever it returns normally, and when it does not call
  \<open>h\<close> it has raised.
\<close>

theorem publish_invokes_subscribed:
  assumes "enumerates ord"
    and "snd (subscribe E h t reg) = None"
    and "get_parameter_type E h = Inr (type_of m)"
    and "\<forall>c \<in> set ops. \<not> removes c h"
  shows "let out = publish running E beh ord m t
                     \<lparr>registry = run_ops E ops (fst (subscribe E h t reg)), app = w\<rparr>
         in (filter (\<lambda>c. fst c = h) (calls out) = [(h, m)]
              \<or> (filter (\<lambda>c. fst c = h) (calls out) = [] \<and> raised out \<noteq> None))
            \<and> (raised out = None \<longrightarrow> filter (\<lambda>c. fst c = h) (calls out) = [(h, m)])"
proof -
  let ?s = "\<lparr>registry = run_ops E ops (fst (subscribe E h t reg)), app = w\<rparr>"
  from assms(2,3) have "h |\<in>| snapshot (fst (subscribe E h t reg)) (type_of m) t"
    by (simp add: snapshot_subscribe)
  then have "h |\<in>| snapshot (run_ops E ops (fst (subscribe E h t reg))) (type_of m) t"
    using assms(4) by (rule run_ops_keeps_bucket)
  then have "h |\<in>| snapshot (registry ?s) (type_of m) t" by simp
  with publish_calls_of [OF assms(1), of h running E beh m t ?s]
  show ?thesis by (auto simp: Let_def)
qed

subsection \<open>Evaluating dispatch\<close>

lemmas dispatch_defs = publish_def snapshot_taken_def start_def publish_one_def batch_one_def
  call_def beh0_def record_call_def by_key_def unkey_def sorted_list_of_fset_finsert
  sorted_list_of_fset_empty batch_publish_def deliver_group_def group_messages_def

theorem publish_invokes_subscribed_witness:
  "enumerates by_key
   \<and> snd (subscribe E0 (Func 8) (Token ''grp1'') empty_registry) = None
   \<and> get_parameter_type E0 (Func 8) = Inr (type_of (StrV ''hi''))
   \<and> \<not> removes (Subscribe (Func 7) (Token ''grp1'')) (Func 8)
   \<and> \<not> removes (Unsubscribe (Func 3)) (Func 8)
   \<and> calls (publish False E0 beh0 by_key (StrV ''hi'') (Token ''grp1'')
        \<lparr>registry = run_ops E0 [Subscribe (Func 7) (Token ''grp1''), Unsubscribe (Func 3)]
                       (fst (subscribe E0 (Func 8) (Token ''grp1'') empty_registry)),
         app = []\<rparr>)
       = [(Func 7, StrV ''hi''), (Func 8, StrV ''hi'')]
   \<and> filter (\<lambda>c. fst c = Func 8)
        (calls (publish False E0 beh0 by_key (StrV ''hi'') (Token ''grp1'')
        \<lparr>registry = run_ops E0 [Subscribe (Func 7) (Token ''grp1''), Unsubscribe (Func 3)]
                       (fst (subscribe E0 (Func 8) (Token ''grp1'') empty_registry)),
         app = []\<rparr>))
       = [(Func 8, StrV ''hi'')]"
proof -
  let ?ops = "[Subscribe (Func 7) (Token ''grp1''), Unsubscribe (Func 3)]"
  let ?out = "publish False E0 beh0 by_key (StrV ''hi'') (Token ''grp1'')
        \<lparr>registry = run_ops E0 ?ops (fst (subscribe E0 (Func 8) (Token ''grp1'') empty_registry)),
         app = []\<rparr>"
  have a: "snd (subscribe E0 (Func 8) (Token ''grp1'') empty_registry) = None"
    by (simp add: example_defs)
  have b: "get_parameter_type E0 (Func 8) = Inr (type_of (StrV ''hi''))"
    by (simp add: example_defs)
  have c: "\<forall>c \<in> set ?ops. \<not> removes c (Func 8)"
    by simp
  have d: "calls ?out = [(Func 7, StrV ''hi''), (Func 8, StrV ''hi'')]"
    by (simp add: example_defs dispatch_defs)
  have e: "raised ?out = None"
    by (simp add: example_defs dispatch_defs)
  from publish_invokes_subscribed [OF enumerates_by_key a b c, of False beh0 "[]"] e
  have "filter (\<lambda>c. fst c = Func 8) (calls ?out) = [(Func 8, StrV ''hi'')]"
    by (simp add: Let_def)
  with a b c d enumerates_by_key show ?thesis by simp
qed

text \<open>
  Claim C1, as stated, fails: functions 1 and 2 are subscribed under the same type and
  token, function 1 is visited first and raises, and function 2 is never called.
\<close>

theorem publish_skips_after_raise_counterexample:
  "snd (subscribe E0 (Func 2) (Token ''a'') (fst (subscribe E0 (Func 1) (Token ''a'') empty_registry))) = None
   \<and> get_parameter_type E0 (Func 2) = Inr (type_of (StrV ''hi''))
   \<and> calls (publish False E0 beh0 by_key (StrV ''hi'') (Token ''a'') \<lparr>registry = R1, app = []\<rparr>)
       = [(Func 1, StrV ''hi'')]
   \<and> raised (publish False E0 beh0 by_key (StrV ''hi'') (Token ''a'') \<lparr>registry = R1, app = []\<rparr>)
       = Some (Exc ''boom'')
   \<and> filter (\<lambda>c. fst c = Func 2)
        (calls (publish False E0 beh0 by_key (StrV ''hi'') (Token ''a'') \<lparr>registry = R1, app = []\<rparr>))
       \<noteq> [(Func 2, StrV ''hi'')]"
  by (simp add: R1_def example_defs dispatch_defs)

subsection \<open>A handler that raises\<close>

lemma calls_snapshot_taken [simp]: "calls (snapshot_taken m t s) = []"
  by (simp add: snapshot_taken_def start_def Let_def)

lemma publish_unfold:
  "publish running E beh ord m t s
     = for_each (publish_one running E beh m) (ord (snapshot (registry s) (type_of m) t))
         (snapshot_taken m t s)"
  by (simp add: publish_def Let_def)

lemma publish_loop_complete:
  assumes "raised (for_each (publish_one running E beh m) hs r) = None"
  shows "calls (for_each (publish_one running E beh m) hs r) = calls r @ map (\<lambda>h. (h, m)) hs"
proof -
  from publish_loop_calls [of hs running E beh m r] obtain k where
    "calls (for_each (publish_one running E beh m) hs r) = calls r @ map (\<lambda>h. (h, m)) (take k hs)"
    "raised (for_each (publish_one running E beh m) hs r) = None \<longrightarrow> k = length hs"
    by auto
  with assms show ?thesis by simp
qed

text \<open>
  Claim C7. Let the iteration over the snapshot reach \<open>h\<close> after the handlers
  \<open>pre\<close>, none of which raised, and let \<open>h\<close> raise \<open>e\<close> there, leaving the state
  \<open>s'\<close>. Then \<^verbatim>\<open>publish\<close> raises \<open>e\<close> itself, the state is \<open>s'\<close> (what the
  handlers run so far did stays done), the calls made are those of \<open>pre\<close> and \<open>h\<close>, and
  no handler after \<open>h\<close> in the snapshot is called.
\<close>

theorem handler_exception_propagates:
  assumes "enumerates ord"
    and "ord (snapshot (registry s) (type_of m) t) = pre @ h # post"
    and "raised (for_each (publish_one running E beh m) pre (snapshot_taken m t s)) = None"
    and "beh h m (state (for_each (publish_one running E beh m) pre (snapshot_taken m t s))) = (s', Some e)"
    and "\<not> (iscoroutinefunction E h \<and> running)"
  shows "raised (publish running E beh ord m t s) = Some e
       \<and> state (publish running E beh ord m t s) = s'
       \<and> calls (publish running E beh ord m t s) = map (\<lambda>x. (x, m)) (pre @ [h])
       \<and> (\<forall>x \<in> set post. \<forall>m'. (x, m') \<notin> set (calls (publish running E beh ord m t s)))"
proof -
  let ?body = "publish_one running E beh m"
  let ?r1 = "for_each ?body pre (snapshot_taken m t s)"
  have one: "?body h ?r1 = ?r1\<lparr>state := s', calls := calls ?r1 @ [(h, m)], raised := Some e\<rparr>"
    using assms(4,5) by (auto simp: publish_one_def call_def)
  then have "raised (?body h ?r1) \<noteq> None" by simp
  with assms(3) have "for_each ?body (pre @ h # post) (snapshot_taken m t s) = ?body h ?r1"
    by (rule for_each_stops)
  with assms(2) have out: "publish running E beh ord m t s = ?body h ?r1"
    by (simp add: publish_unfold)
  have c1: "calls ?r1 = map (\<lambda>x. (x, m)) pre"
    using publish_loop_complete [OF assms(3)] by simp
  from assms(1) have "distinct (ord (snapshot (registry s) (type_of m) t))"
    by (rule enumeratesD)
  with assms(2) have d: "\<forall>x \<in> set post. x \<notin> set pre \<and> x \<noteq> h"
    by auto
  from out one c1 have "calls (publish running E beh ord m t s) = map (\<lambda>x. (x, m)) (pre @ [h])"
    by simp
  moreover from this d
  have "\<forall>x \<in> set post. \<forall>m'. (x, m') \<notin> set (calls (publish running E beh ord m t s))"
    by auto
  moreover from out one have "raised (publish running E beh ord m t s) = Some e"
    "state (publish running E beh ord m t s) = s'" by simp_all
  ultimately show ?thesis by simp
qed

theorem handler_exception_propagates_witness:
  "by_key (snapshot R2 (type_of (StrV ''hi'')) (Token ''a'')) = [Func 0] @ Func 1 # [Func 2]
   \<and> snd (beh0 (Func 1) (StrV ''hi'')
          (state (for_each (publish_one False E0 beh0 (StrV ''hi'')) [Func 0]
                   (snapshot_taken (StrV ''hi'') (Token ''a'') \<lparr>registry = R2, app = []\<rparr>))))
       = Some (Exc ''boom'')
   \<and> raised (publish False E0 beh0 by_key (StrV ''hi'') (Token ''a'') \<lparr>registry = R2, app = []\<rparr>)
       = Some (Exc ''boom'')
   \<and> calls (publish False E0 beh0 by_key (StrV ''hi'') (Token ''a'') \<lparr>registry = R2, app = []\<rparr>)
       = [(Func 0, StrV ''hi''), (Func 1, StrV ''hi'')]
   \<and> (Func 2, StrV ''hi'') \<notin>
       set (calls (publish False E0 beh0 by_key (StrV ''hi'') (Token ''a'') \<lparr>registry = R2, app = []\<rparr>))"
proof -
  let ?s = "\<lparr>registry = R2, app = []\<rparr> :: (callable \<times> msg) list pstate"
  let ?m = "StrV ''hi''"
  let ?r1 = "for_each (publish_one False E0 beh0 ?m) [Func 0] (snapshot_taken ?m (Token ''a'') ?s)"
  have a: "by_key (snapshot (registry ?s) (type_of ?m) (Token ''a'')) = [Func 0] @ Func 1 # [Func 2]"
    by (simp add: R2_def example_defs dispatch_defs)
  have b: "raised ?r1 = None"
    by (simp add: R2_def example_defs dispatch_defs)
  have c: "snd (beh0 (Func 1) ?m (state ?r1)) = Some (Exc ''boom'')"
    by (simp add: beh0_def)
  then have c': "beh0 (Func 1) ?m (state ?r1) = (fst (beh0 (Func 1) ?m (state ?r1)), Some (Exc ''boom''))"
    by (simp add: prod_eq_iff)
  have d: "\<not> (iscoroutinefunction E0 (Func 1) \<and> False)"
    by simp
  from handler_exception_propagates [OF enumerates_by_key a b c' d] a c
  show ?thesis by simp
qed

subsection \<open>Routing by exact type and token\<close>

lemma well_typed_empty: "well_typed E empty_registry"
  by (simp add: well_typed_def)

lemma well_typed_run_op:
  assumes "well_typed E reg"
  shows "well_typed E (fst (run_op E c reg))"
  using assms unfolding well_typed_def
  by (cases c)
     (auto simp: snapshot_subscribe snapshot_subscribeReceiver snapshot_unsubscribe
        snapshot_unsubscribeReceiver split: if_splits)

lemma well_typed_run_ops:
  "well_typed E reg \<Longrightarrow> well_typed E (run_ops E ops reg)"
  by (induction ops arbitrary: reg) (simp_all add: well_typed_run_op)

lemma called_only_from_its_bucket:
  assumes "enumerates ord"
    and "(h, m') \<in> set (calls (publish running E beh ord m t'
            \<lparr>registry = run_ops E ops empty_registry, app = w\<rparr>))"
  shows "m' = m \<and> get_parameter_type E h = Inr (type_of m)
       \<and> h |\<in>| snapshot (run_ops E ops empty_registry) (type_of m) t'"
proof -
  let ?reg = "run_ops E ops empty_registry"
  from publish_calls_in_snapshot [OF assms]
  have m: "m' = m" and b: "h |\<in>| snapshot ?reg (type_of m) t'" by simp_all
  have "well_typed E ?reg" by (intro well_typed_run_ops well_typed_empty)
  with b have "get_parameter_type E h = Inr (type_of m)" by (simp add: well_typed_def)
  with m b show ?thesis by simp
qed

text \<open>
  Claim C2, as stated, fails: the bound method of receiver 1 is subscribed with
  \<^verbatim>\<open>subscribe\<close> under the token \<^verbatim>\<open>"grp2"\<close>, the receiver itself with
  \<^verbatim>\<open>subscribeReceiver\<close>, which files the same bound method under the receiver's own
  token \<^verbatim>\<open>"grp1"\<close>; a \<^verbatim>\<open>publish\<close> under \<^verbatim>\<open>"grp1"\<close> then calls it.
\<close>

theorem bound_method_called_under_other_token_counterexample:
  "snd (subscribe E0 (Method 1) (Token ''grp2'') empty_registry) = None
   \<and> get_parameter_type E0 (Method 1) = Inr (type_of (StrV ''hi''))
   \<and> Token ''grp1'' \<noteq> Token ''grp2''
   \<and> (Method 1, StrV ''hi'') \<in>
       set (calls (publish False E0 beh0 by_key (StrV ''hi'') (Token ''grp1'')
              \<lparr>registry = run_ops E0 [Subscribe (Method 1) (Token ''grp2''), SubscribeReceiver 1]
                             empty_registry,
               app = []\<rparr>))"
  by (simp add: example_defs dispatch_defs)

lemma subclass_not_delivered:
  "issubclass (type_of (BoolV True)) IntT
   \<and> calls (publish False E0 beh0 by_key (BoolV True) (Token ''n'') \<lparr>registry = R3, app = []\<rparr>) = []
   \<and> calls (publish False E0 beh0 by_key (IntV 5) (Token ''m'') \<lparr>registry = R3, app = []\<rparr>) = []
   \<and> calls (publish False E0 beh0 by_key (IntV 5) NoToken \<lparr>registry = R3, app = []\<rparr>) = []"
  by (simp add: R3_def example_defs dispatch_defs)

lemma handlers_tracked_empty: "handlers_tracked E empty_registry"
  by (simp add: handlers_tracked_def)

lemma handlers_tracked_run_op:
  assumes "well_typed E reg" and "handlers_tracked E reg"
  shows "handlers_tracked E (fst (run_op E c reg))"
proof (cases c)
  case (Subscribe h' tok)
  with assms(2) show ?thesis
    by (auto simp: handlers_tracked_def snapshot_subscribe subscriberSet_subscribe split: if_splits)
next
  case (SubscribeReceiver r)
  with assms(2) show ?thesis
    by (auto simp: handlers_tracked_def snapshot_subscribeReceiver subscriberSet_subscribeReceiver
          receiver_token_def split: if_splits)
next
  case (Unsubscribe h')
  show ?thesis
    unfolding handlers_tracked_def
  proof (intro allI impI)
    fix T t h
    assume in_after: "h |\<in>| snapshot (fst (run_op E c reg)) T t"
    with Unsubscribe have before: "h |\<in>| snapshot reg T t"
      by (auto simp: snapshot_unsubscribe split: if_splits)
    from before assms(1) have ty: "get_parameter_type E h = Inr T"
      by (simp add: well_typed_def)
    have ne: "h' \<noteq> h"
    proof
      assume "h' = h"
      with in_after Unsubscribe ty show False by (simp add: snapshot_unsubscribe)
    qed
    from before assms(2)
    have "Handler h |\<in>| subscriberSet reg \<or> (\<exists>r. h = Method r \<and> t = receiver_token E r)"
      by (simp add: handlers_tracked_def)
    with ne Unsubscribe
    show "Handler h |\<in>| subscriberSet (fst (run_op E c reg))
            \<or> (\<exists>r. h = Method r \<and> t = receiver_token E r)"
      by (auto simp: subscriberSet_unsubscribe)
  qed
next
  case (UnsubscribeReceiver r)
  with assms(2) show ?thesis
    by (auto simp: handlers_tracked_def snapshot_unsubscribeReceiver
          subscriberSet_unsubscribeReceiver split: if_splits)
qed

lemma reachable_invariants:
  "well_typed E (run_ops E ops empty_registry) \<and> handlers_tracked E (run_ops E ops empty_registry)"
proof -
  have "well_typed E reg \<and> handlers_tracked E reg \<Longrightarrow>
        well_typed E (run_ops E ops reg) \<and> handlers_tracked E (run_ops E ops reg)" for reg
    by (induction ops arbitrary: reg) (simp_all add: well_typed_run_op handlers_tracked_run_op)
  then show ?thesis by (simp add: well_typed_empty handlers_tracked_empty)
qed

lemma tokens_run_op:
  assumes "Handler h |\<in>| subscriberSet reg"
    and "\<forall>T' t''. h |\<in>| snapshot reg T' t''
           \<longrightarrow> t'' = t \<or> (\<exists>r. h = Method r \<and> t'' = receiver_token E r)"
    and "c \<noteq> Unsubscribe h"
  shows "\<forall>T' t''. h |\<in>| snapshot (fst (run_op E c reg)) T' t''
           \<longrightarrow> t'' = t \<or> (\<exists>r. h = Method r \<and> t'' = receiver_token E r)"
  using assms
  by (cases c)
     (auto simp: snapshot_subscribe snapshot_subscribeReceiver snapshot_unsubscribe
        snapshot_unsubscribeReceiver subscribe_ok_iff receiver_token_def split: if_splits)

lemma tokens_run_ops:
  assumes "Handler h |\<in>| subscriberSet reg"
    and "\<forall>T' t''. h |\<in>| snapshot reg T' t''
           \<longrightarrow> t'' = t \<or> (\<exists>r. h = Method r \<and> t'' = receiver_token E r)"
    and "Unsubscribe h \<notin> set ops"
  shows "\<forall>T' t''. h |\<in>| snapshot (run_ops E ops reg) T' t''
           \<longrightarrow> t'' = t \<or> (\<exists>r. h = Method r \<and> t'' = receiver_token E r)"
  using assms
proof (induction ops arbitrary: reg)
  case Nil
  then show ?case by simp
next
  case (Cons c cs)
  from Cons.prems have c: "c \<noteq> Unsubscribe h" "Unsubscribe h \<notin> set cs" by auto
  from Cons.prems(1) c(1) have 1: "Handler h |\<in>| subscriberSet (fst (run_op E c reg))"
    by (rule run_op_keeps_member)
  from Cons.prems(1,2) c(1)
  have 2: "\<forall>T' t''. h |\<in>| snapshot (fst (run_op E c reg)) T' t''
             \<longrightarrow> t'' = t \<or> (\<exists>r. h = Method r \<and> t'' = receiver_token E r)"
    by (rule tokens_run_op)
  from Cons.IH [OF 1 2 c(2)] show ?case by simp
qed

lemma subscribed_tokens:
  assumes "snd (subscribe E h t (run_ops E ops0 empty_registry)) = None"
    and "Unsubscribe h \<notin> set ops1"
  shows "\<forall>T' t''. h |\<in>| snapshot
            (run_ops E ops1 (fst (subscribe E h t (run_ops E ops0 empty_registry)))) T' t''
          \<longrightarrow> t'' = t \<or> (\<exists>r. h = Method r \<and> t'' = receiver_token E r)"
proof -
  let ?reg0 = "run_ops E ops0 empty_registry"
  let ?reg1 = "fst (subscribe E h t ?reg0)"
  from assms(1) have fresh: "Handler h |\<notin>| subscriberSet ?reg0"
    by (simp add: subscribe_ok_iff)
  have "handlers_tracked E ?reg0" using reachable_invariants [of E ops0] by simp
  with fresh have old: "\<forall>T' t''. h |\<in>| snapshot ?reg0 T' t''
      \<longrightarrow> (\<exists>r. h = Method r \<and> t'' = receiver_token E r)"
    by (auto simp: handlers_tracked_def)
  from assms(1) have 1: "Handler h |\<in>| subscriberSet ?reg1"
    by (simp add: subscriberSet_subscribe)
  from old have 2: "\<forall>T' t''. h |\<in>| snapshot ?reg1 T' t''
      \<longrightarrow> t'' = t \<or> (\<exists>r. h = Method r \<and> t'' = receiver_token E r)"
    by (auto simp: snapshot_subscribe split: if_splits)
  from 1 2 assms(2) show ?thesis by (rule tokens_run_ops)
qed

lemma run_ops_append:
  "run_ops E (xs @ ys) reg = run_ops E ys (run_ops E xs reg)"
  by (induction xs arbitrary: reg) simp_all

text \<open>
  Claim C2, amended. Let \<^verbatim>\<open>subscribe(h, t)\<close> succeed in a registry reached by any
  registry calls, and let any registry calls but \<^verbatim>\<open>unsubscribe(h)\<close> follow. If
  \<^verbatim>\<open>publish(m, t')\<close> then calls \<open>h\<close>, the value passed is \<open>m\<close>, the declared
  type of \<open>h\<close> is the type of \<open>m\<close> itself, and \<open>t'\<close> is \<open>t\<close>, or \<open>h\<close> is the
  bound method of a receiver and \<open>t'\<close> is the token of that receiver. For a plain
  function only \<open>t' = t\<close> is left.
\<close>

theorem publish_calls_by_exact_type_and_token:
  assumes "enumerates ord"
    and "snd (subscribe E h t (run_ops E ops0 empty_registry)) = None"
    and "Unsubscribe h \<notin> set ops1"
    and "(h, m') \<in> set (calls (publish running E beh ord m t'
            \<lparr>registry = run_ops E (ops0 @ Subscribe h t # ops1) empty_registry, app = w\<rparr>))"
  shows "m' = m \<and> get_parameter_type E h = Inr (type_of m)
       \<and> (t' = t \<or> (\<exists>r. h = Method r \<and> t' = receiver_token E r))
       \<and> ((\<exists>f. h = Func f) \<longrightarrow> t' = t)"
proof -
  have reg: "run_ops E (ops0 @ Subscribe h t # ops1) empty_registry
      = run_ops E ops1 (fst (subscribe E h t (run_ops E ops0 empty_registry)))"
    by (simp add: run_ops_append)
  from called_only_from_its_bucket [OF assms(1,4)]
  have 1: "m' = m" "get_parameter_type E h = Inr (type_of m)"
    and 2: "h |\<in>| snapshot (run_ops E (ops0 @ Subscribe h t # ops1) empty_registry) (type_of m) t'"
    by simp_all
  from subscribed_tokens [OF assms(2,3)] 2
  have 3: "t' = t \<or> (\<exists>r. h = Method r \<and> t' = receiver_token E r)"
    unfolding reg by simp
  then have "(\<exists>f. h = Func f) \<longrightarrow> t' = t" by auto
  with 1 3 show ?thesis by simp
qed

theorem publish_calls_by_exact_type_and_token_witness:
  "snd (subscribe E0 (Func 3) (Token ''n'') (run_ops E0 [Subscribe (Func 2) (Token ''n'')] empty_registry))
     = None
   \<and> Unsubscribe (Func 3) \<notin> set [SubscribeReceiver 1]
   \<and> (Func 3, IntV 5) \<in>
       set (calls (publish False E0 beh0 by_key (IntV 5) (Token ''n'')
              \<lparr>registry = run_ops E0 ([Subscribe (Func 2) (Token ''n'')]
                               @ Subscribe (Func 3) (Token ''n'') # [SubscribeReceiver 1])
                             empty_registry,
               app = []\<rparr>))
   \<and> get_parameter_type E0 (Func 3) = Inr (type_of (IntV 5))
   \<and> type_of (IntV 5) = IntT"
proof -
  have a: "snd (subscribe E0 (Func 3) (Token ''n'')
             (run_ops E0 [Subscribe (Func 2) (Token ''n'')] empty_registry)) = None"
    by (simp add: example_defs)
  have b: "Unsubscribe (Func 3) \<notin> set [SubscribeReceiver 1]"
    by simp
  have c: "(Func 3, IntV 5) \<in>
       set (calls (publish False E0 beh0 by_key (IntV 5) (Token ''n'')
              \<lparr>registry = run_ops E0 ([Subscribe (Func 2) (Token ''n'')]
                               @ Subscribe (Func 3) (Token ''n'') # [SubscribeReceiver 1])
                             empty_registry,
               app = []\<rparr>))"
    by (simp add: example_defs dispatch_defs)
  from publish_calls_by_exact_type_and_token [OF enumerates_by_key a b c] a b c
  show ?thesis by simp
qed

subsection \<open>Grouping the messages of a batch\<close>

lemma group_append_keys:
  "map fst (group_append m gs) =
     (if type_of m \<in> set (map fst gs) then map fst gs else map fst gs @ [type_of m])"
  by (induction gs) force+

lemma group_append_groups:
  assumes "distinct (map fst gs)"
    and "\<forall>(T, ms) \<in> set gs. ms = filter (\<lambda>x. type_of x = T) seen"
    and "type_of m \<notin> set (map fst gs) \<longrightarrow> filter (\<lambda>x. type_of x = type_of m) seen = []"
  shows "\<forall>(T, ms) \<in> set (group_append m gs). ms = filter (\<lambda>x. type_of x = T) (seen @ [m])"
  using assms
proof (induction gs)
  case Nil
  then show ?case by simp
next
  case (Cons g gs)
  obtain T0 ms0 where g: "g = (T0, ms0)" by (cases g)
  show ?case
  proof (cases "T0 = type_of m")
    case True
    with Cons.prems g show ?thesis by (auto simp: rev_image_eqI)
  next
    case False
    with Cons.prems g have "\<forall>(T, ms) \<in> set (group_append m gs).
        ms = filter (\<lambda>x. type_of x = T) (seen @ [m])"
      by (intro Cons.IH) auto
    with False Cons.prems g show ?thesis by auto
  qed
qed

lemma grouped_step:
  assumes "grouped gs seen"
  shows "grouped (group_append m gs) (seen @ [m])"
proof -
  from assms have d: "distinct (map fst gs)" and k: "set (map fst gs) = type_of ` set seen"
    and g: "\<forall>(T, ms) \<in> set gs. ms = filter (\<lambda>x. type_of x = T) seen"
    by (simp_all add: grouped_def)
  have e: "type_of m \<notin> set (map fst gs) \<longrightarrow> filter (\<lambda>x. type_of x = type_of m) seen = []"
  proof
    assume "type_of m \<notin> set (map fst gs)"
    with k have "type_of m \<notin> type_of ` set seen" by simp
    then have "\<forall>x \<in> set seen. type_of x \<noteq> type_of m" by (metis imageI)
    then show "filter (\<lambda>x. type_of x = type_of m) seen = []"
      by (simp add: filter_empty_conv)
  qed
  from d have "distinct (map fst (group_append m gs))"
    by (simp add: group_append_keys)
  moreover from k have "set (map fst (group_append m gs)) = type_of ` set (seen @ [m])"
    by (auto simp: group_append_keys)
  moreover note group_append_groups [OF d g e]
  ultimately show ?thesis by (simp add: grouped_def)
qed

lemma grouped_foldl:
  "grouped gs seen \<Longrightarrow> grouped (foldl (\<lambda>gs m. group_append m gs) gs msgs) (seen @ msgs)"
proof (induction msgs arbitrary: gs seen)
  case Nil
  then show ?case by simp
next
  case (Cons m msgs)
  from Cons.prems have "grouped (group_append m gs) (seen @ [m])" by (rule grouped_step)
  from Cons.IH [OF this] show ?case by simp
qed

lemma grouped_group_messages: "grouped (group_messages msgs) msgs"
  using grouped_foldl [of "[]" "[]" msgs] by (simp add: grouped_def group_messages_def)

subsection \<open>The calls of batch_publish\<close>

lemma for_each_preserves:
  assumes "\<And>x r. p (body x r) = p r"
  shows "p (for_each body xs r) = p r"
  by (induction xs arbitrary: r) (simp_all add: Let_def assms)

lemma for_each_complete:
  assumes "raised (for_each body xs r) = None"
    and step: "\<And>x r. raised (body x r) = None \<Longrightarrow> calls (body x r) = calls r @ g x"
  shows "calls (for_each body xs r) = calls r @ concat (map g xs)"
  using assms(1)
proof (induction xs arbitrary: r)
  case Nil
  then show ?case by simp
next
  case (Cons x xs)
  show ?case
  proof (cases "raised (body x r) = None")
    case True
    with Cons.prems have "raised (for_each body xs (body x r)) = None" by (simp add: Let_def)
    from Cons.IH [OF this] True step [OF True] show ?thesis by (simp add: Let_def)
  next
    case False
    with Cons.prems show ?thesis by (simp add: Let_def)
  qed
qed

lemma batch_inner_calls:
  assumes "raised (for_each (batch_one running E beh h) ms r) = None"
  shows "calls (for_each (batch_one running E beh h) ms r) = calls r @ map (Pair h) ms"
proof -
  have "calls (for_each (batch_one running E beh h) ms r)
      = calls r @ concat (map (\<lambda>m. [(h, m)]) ms)"
    using assms by (rule for_each_complete) simp
  also have "concat (map (\<lambda>m. [(h, m)]) ms) = map (Pair h) ms"
    by (induction ms) simp_all
  finally show ?thesis .
qed

lemma batch_outer_calls:
  assumes "raised (for_each (\<lambda>h. for_each (batch_one running E beh h) ms) hs r) = None"
  shows "calls (for_each (\<lambda>h. for_each (batch_one running E beh h) ms) hs r)
      = calls r @ concat (map (\<lambda>h. map (Pair h) ms) hs)"
  using assms by (rule for_each_complete) (rule batch_inner_calls)

lemma snapshots_batch_loops [simp]:
  "snapshots (for_each (\<lambda>h. for_each (batch_one running E beh h) ms) hs r) = snapshots r"
  by (intro for_each_preserves) simp

lemma snapshots_deliver_group:
  "snapshots (deliver_group running E beh ord tok (T, ms) r)
     = snapshots r @ [(T, snapshot (registry (state r)) T tok)]"
  by (simp add: deliver_group_def Let_def)

lemma calls_deliver_group:
  assumes "raised (deliver_group running E beh ord tok (T, ms) r) = None"
  shows "calls (deliver_group running E beh ord tok (T, ms) r)
     = calls r @ concat (map (\<lambda>h. map (Pair h) ms) (ord (snapshot (registry (state r)) T tok)))"
  using assms batch_outer_calls [of running E beh ms "ord (snapshot (registry (state r)) T tok)"
      "r\<lparr>snapshots := snapshots r @ [(T, snapshot (registry (state r)) T tok)]\<rparr>"]
  by (simp add: deliver_group_def Let_def)

lemma batch_groups_calls:
  assumes "raised (for_each (deliver_group running E beh ord tok) gs r) = None"
    and "\<forall>(T, ms) \<in> set gs. ms = filter (\<lambda>x. type_of x = T) msgs"
  shows "\<exists>snaps. snapshots (for_each (deliver_group running E beh ord tok) gs r) = snapshots r @ snaps
           \<and> map fst snaps = map fst gs
           \<and> calls (for_each (deliver_group running E beh ord tok) gs r)
               = calls r @ concat (map (deliveries ord msgs) snaps)"
  using assms
proof (induction gs arbitrary: r)
  case Nil
  then show ?case by simp
next
  case (Cons g gs)
  obtain T ms where g: "g = (T, ms)" by (cases g)
  let ?body = "deliver_group running E beh ord tok"
  let ?r' = "?body (T, ms) r"
  let ?S = "snapshot (registry (state r)) T tok"
  have ok: "raised ?r' = None"
  proof (rule ccontr)
    assume "raised ?r' \<noteq> None"
    with Cons.prems(1) g show False by (auto simp: Let_def)
  qed
  then have step: "for_each ?body (g # gs) r = for_each ?body gs ?r'"
    using g by (simp add: Let_def)
  from Cons.prems(1) have 1: "raised (for_each ?body gs ?r') = None"
    unfolding step .
  from Cons.prems(2) have 2: "\<forall>(T, ms) \<in> set gs. ms = filter (\<lambda>x. type_of x = T) msgs"
    by simp
  from Cons.prems(2) g have ms: "ms = filter (\<lambda>x. type_of x = T) msgs" by simp
  from Cons.IH [OF 1 2] obtain snaps where
    s1: "snapshots (for_each ?body gs ?r') = snapshots ?r' @ snaps"
    and s2: "map fst snaps = map fst gs"
    and s3: "calls (for_each ?body gs ?r') = calls ?r' @ concat (map (deliveries ord msgs) snaps)"
    by auto
  have c: "calls ?r' = calls r @ deliveries ord msgs (T, ?S)"
    using calls_deliver_group [OF ok] ms by (simp add: deliveries_def)
  have a: "snapshots (for_each ?body (g # gs) r) = snapshots r @ ((T, ?S) # snaps)"
    unfolding step s1 by (simp add: snapshots_deliver_group)
  have b: "map fst ((T, ?S) # snaps) = map fst (g # gs)"
    using s2 g by simp
  have d: "calls (for_each ?body (g # gs) r)
      = calls r @ concat (map (deliveries ord msgs) ((T, ?S) # snaps))"
    unfolding step s3 c by simp
  from a b d show ?case by (intro exI [of _ "(T, ?S) # snaps"]) simp
qed

lemma batch_publish_calls:
  assumes "raised (batch_publish running E beh ord msgs tok s) = None"
  shows "map fst (snapshots (batch_publish running E beh ord msgs tok s)) = map fst (group_messages msgs)
       \<and> calls (batch_publish running E beh ord msgs tok s)
           = concat (map (deliveries ord msgs) (snapshots (batch_publish running E beh ord msgs tok s)))"
proof (cases "msgs = []")
  case True
  then show ?thesis by (simp add: batch_publish_def start_def group_messages_def)
next
  case False
  let ?out = "for_each (deliver_group running E beh ord tok) (group_messages msgs) (start s)"
  from False have out: "batch_publish running E beh ord msgs tok s = ?out"
    by (simp add: batch_publish_def)
  from grouped_group_messages [of msgs]
  have g: "\<forall>(T, ms) \<in> set (group_messages msgs). ms = filter (\<lambda>x. type_of x = T) msgs"
    by (simp add: grouped_def)
  from assms have "raised ?out = None" unfolding out .
  from batch_groups_calls [OF this g] show ?thesis
    unfolding out by (auto simp: start_def)
qed

lemma for_each_invariant:
  assumes "\<And>x r. I r \<Longrightarrow> I (body x r)" and "I r"
  shows "I (for_each body xs r)"
  using assms(2) by (induction xs arbitrary: r) (simp_all add: Let_def assms(1))

lemma scheduled_call [simp]: "scheduled (call beh h m r) = scheduled r"
  by (simp add: call_def split: prod.splits)

lemma state_call: "state (call beh h m r) = fst (beh h m (state r))"
  by (simp add: call_def split: prod.splits)

lemma batch_scheduled:
  "scheduled (batch_publish running E beh ord msgs tok s)
     = filter (\<lambda>c. iscoroutinefunction E (fst c) \<and> running)
         (calls (batch_publish running E beh ord msgs tok s))"
proof -
  let ?I = "\<lambda>r :: 'a run. scheduled r = filter (\<lambda>c. iscoroutinefunction E (fst c) \<and> running) (calls r)"
  have one: "?I (batch_one running E beh h m r)" if "?I r" for h m r
    using that by (simp add: batch_one_def)
  have inner: "?I (for_each (batch_one running E beh h) ms r)" if "?I r" for h ms r
    using one that by (rule for_each_invariant)
  have outer: "?I (for_each (\<lambda>h. for_each (batch_one running E beh h) ms) hs r)" if "?I r" for ms hs r
    using inner that by (rule for_each_invariant)
  have grp: "?I (deliver_group running E beh ord tok g r)" if "?I r" for g r
  proof -
    obtain T ms where g: "g = (T, ms)" by (cases g)
    from that have "?I (r\<lparr>snapshots := snapshots r @ [(T, snapshot (registry (state r)) T tok)]\<rparr>)"
      by simp
    from outer [OF this] g show ?thesis by (simp add: deliver_group_def Let_def)
  qed
  have "?I (start s)" by (simp add: start_def)
  with grp have "?I (for_each (deliver_group running E beh ord tok) (group_messages msgs) (start s))"
    by (rule for_each_invariant)
  with \<open>?I (start s)\<close> show ?thesis by (simp add: batch_publish_def)
qed

lemma batch_snapshots_of_start:
  assumes quiet: "\<forall>h m st. registry (fst (beh h m st)) = registry st"
  shows "\<forall>(T, S) \<in> set (snapshots (batch_publish running E beh ord msgs tok s)).
           S = snapshot (registry s) T tok"
proof -
  let ?I = "\<lambda>r :: 'a run. registry (state r) = registry s
               \<and> (\<forall>(T, S) \<in> set (snapshots r). S = snapshot (registry s) T tok)"
  have one: "?I (batch_one running E beh h m r)" if "?I r" for h m r
    using that quiet by (simp add: batch_one_def state_call)
  have inner: "?I (for_each (batch_one running E beh h) ms r)" if "?I r" for h ms r
    using one that by (rule for_each_invariant)
  have outer: "?I (for_each (\<lambda>h. for_each (batch_one running E beh h) ms) hs r)" if "?I r" for ms hs r
    using inner that by (rule for_each_invariant)
  have grp: "?I (deliver_group running E beh ord tok g r)" if "?I r" for g r
  proof -
    obtain T ms where g: "g = (T, ms)" by (cases g)
    from that have eq: "registry (state r) = registry s" by simp
    from that have "?I (r\<lparr>snapshots := snapshots r @ [(T, snapshot (registry s) T tok)]\<rparr>)"
      by simp
    from outer [OF this, of ms "ord (snapshot (registry s) T tok)"] g eq show ?thesis
      by (simp add: deliver_group_def Let_def)
  qed
  have "?I (start s)" by (simp add: start_def)
  with grp have "?I (for_each (deliver_group running E beh ord tok) (group_messages msgs) (start s))"
    by (rule for_each_invariant)
  with \<open>?I (start s)\<close> show ?thesis by (simp add: batch_publish_def)
qed

lemma concat_only_one:
  assumes "distinct xs" and "x \<in> set xs"
  shows "concat (map (\<lambda>y. if y = x then A else []) xs) = A"
  using assms by (induction xs) auto

lemma concat_none:
  "\<forall>y \<in> set xs. f y = [] \<Longrightarrow> concat (map f xs) = []"
  by (induction xs) simp_all

lemma filter_deliveries:
  assumes "enumerates ord"
  shows "filter (\<lambda>c. fst c = h \<and> type_of (snd c) = T) (deliveries ord msgs (T', S))
       = (if T' = T \<and> h |\<in>| S then map (Pair h) (filter (\<lambda>x. type_of x = T) msgs) else [])"
proof -
  let ?G = "filter (\<lambda>x. type_of x = T') msgs"
  let ?P = "\<lambda>c :: callable \<times> msg. fst c = h \<and> type_of (snd c) = T"
  have row: "filter ?P (map (Pair h') ?G) = (if h' = h \<and> T' = T then map (Pair h) ?G else [])" for h'
    by (induction msgs) auto
  have "filter ?P (deliveries ord msgs (T', S))
      = concat (map (\<lambda>h'. filter ?P (map (Pair h') ?G)) (ord S))"
    by (simp add: deliveries_def filter_concat comp_def)
  also have "\<dots> = concat (map (\<lambda>h'. if h' = h \<and> T' = T then map (Pair h) ?G else []) (ord S))"
    by (simp only: row)
  also have "\<dots> = (if T' = T \<and> h |\<in>| S then map (Pair h) (filter (\<lambda>x. type_of x = T) msgs) else [])"
  proof (cases "T' = T \<and> h |\<in>| S")
    case True
    with assms have "distinct (ord S)" "h \<in> set (ord S)" by (simp_all add: enumeratesD)
    from concat_only_one [OF this, of "map (Pair h) ?G"] True show ?thesis by simp
  next
    case False
    with assms have "\<forall>h' \<in> set (ord S). (if h' = h \<and> T' = T then map (Pair h) ?G else []) = []"
      by (auto simp: enumeratesD)
    then have "concat (map (\<lambda>h'. if h' = h \<and> T' = T then map (Pair h) ?G else []) (ord S)) = []"
      by (rule concat_none)
    with False show ?thesis by (simp only: if_False)
  qed
  finally show ?thesis .
qed

lemma concat_at_key:
  assumes "distinct (map fst xs)" and "(T, S) \<in> set xs"
  shows "concat (map (\<lambda>g. if fst g = T \<and> h |\<in>| snd g then A else []) xs)
       = (if h |\<in>| S then A else [])"
  using assms
proof (induction xs)
  case Nil
  then show ?case by simp
next
  case (Cons g xs)
  show ?case
  proof (cases "g = (T, S)")
    case True
    with Cons.prems(1) have "\<forall>g' \<in> set xs. fst g' \<noteq> T" by force
    then have "\<forall>g' \<in> set xs. (if fst g' = T \<and> h |\<in>| snd g' then A else []) = []" by simp
    from concat_none [OF this] True show ?thesis by simp
  next
    case False
    with Cons.prems have in_tail: "(T, S) \<in> set xs" and d: "distinct (map fst xs)" by simp_all
    from in_tail have "T \<in> fst ` set xs" by force
    with Cons.prems(1) have "fst g \<noteq> T" by auto
    with Cons.IH [OF d in_tail] show ?thesis by simp
  qed
qed

lemma batch_publish_per_handler:
  assumes "enumerates ord"
    and "raised (batch_publish running E beh ord msgs tok s) = None"
    and "(T, S) \<in> set (snapshots (batch_publish running E beh ord msgs tok s))"
    and "h |\<in>| S"
  shows "map snd (filter (\<lambda>c. fst c = h \<and> type_of (snd c) = T)
                    (calls (batch_publish running E beh ord msgs tok s)))
       = filter (\<lambda>x. type_of x = T) msgs"
proof -
  let ?out = "batch_publish running E beh ord msgs tok s"
  let ?P = "\<lambda>c :: callable \<times> msg. fst c = h \<and> type_of (snd c) = T"
  let ?A = "map (Pair h) (filter (\<lambda>x. type_of x = T) msgs)"
  from batch_publish_calls [OF assms(2)]
  have keys: "map fst (snapshots ?out) = map fst (group_messages msgs)"
    and c: "calls ?out = concat (map (deliveries ord msgs) (snapshots ?out))"
    by simp_all
  from grouped_group_messages [of msgs] keys have d: "distinct (map fst (snapshots ?out))"
    by (simp add: grouped_def)
  have "filter ?P (calls ?out)
      = concat (map (\<lambda>g. filter ?P (deliveries ord msgs g)) (snapshots ?out))"
    unfolding c by (simp add: filter_concat comp_def)
  also have "\<dots> = concat (map (\<lambda>g. if fst g = T \<and> h |\<in>| snd g then ?A else []) (snapshots ?out))"
  proof -
    have "filter ?P (deliveries ord msgs g) = (if fst g = T \<and> h |\<in>| snd g then ?A else [])" for g
      using filter_deliveries [OF assms(1), of h T msgs "fst g" "snd g"] by simp
    then show ?thesis by simp
  qed
  also have "\<dots> = ?A"
    using concat_at_key [OF d assms(3), of h ?A] assms(4) by simp
  finally show ?thesis by (simp add: comp_def)
qed

text \<open>
  Claim C6, amended. \<^verbatim>\<open>batch_publish\<close> partitions the messages by runtime type,
  one group for each type that occurs, each holding the messages of its type in their
  original order. If no call raises, one copy of the bucket is taken for each group, and
  the calls made are, group by group and handler by handler of the copy, all the messages
  of the group in their original order; so a handler of the copy taken for a type is
  called with exactly the messages of that type, in order. The copies are the buckets of
  the registry at the start when no handler touches the registry. For a coroutine
  function the call only builds the coroutine, which is handed to
  \<^verbatim>\<open>asyncio.create_task\<close>; these are the calls listed as scheduled.
\<close>

theorem batch_publish_delivers:
  "let out = batch_publish running E beh ord msgs tok s in
     grouped (group_messages msgs) msgs
     \<and> (raised out = None \<longrightarrow>
          map fst (snapshots out) = map fst (group_messages msgs)
          \<and> calls out = concat (map (deliveries ord msgs) (snapshots out))
          \<and> (enumerates ord \<longrightarrow>
               (\<forall>(T, S) \<in> set (snapshots out). \<forall>h. h |\<in>| S \<longrightarrow>
                  map snd (filter (\<lambda>c. fst c = h \<and> type_of (snd c) = T) (calls out))
                    = filter (\<lambda>x. type_of x = T) msgs)))
     \<and> ((\<forall>h m st. registry (fst (beh h m st)) = registry st) \<longrightarrow>
          (\<forall>(T, S) \<in> set (snapshots out). S = snapshot (registry s) T tok))
     \<and> scheduled out = filter (\<lambda>c. iscoroutinefunction E (fst c) \<and> running) (calls out)"
proof -
  let ?out = "batch_publish running E beh ord msgs tok s"
  have 1: "grouped (group_messages msgs) msgs"
    by (rule grouped_group_messages)
  have 2: "raised ?out = None \<longrightarrow>
          map fst (snapshots ?out) = map fst (group_messages msgs)
          \<and> calls ?out = concat (map (deliveries ord msgs) (snapshots ?out))
          \<and> (enumerates ord \<longrightarrow>
               (\<forall>(T, S) \<in> set (snapshots ?out). \<forall>h. h |\<in>| S \<longrightarrow>
                  map snd (filter (\<lambda>c. fst c = h \<and> type_of (snd c) = T) (calls ?out))
                    = filter (\<lambda>x. type_of x = T) msgs))"
  proof (intro impI conjI)
    assume r: "raised ?out = None"
    from batch_publish_calls [OF r]
    show "map fst (snapshots ?out) = map fst (group_messages msgs)"
      and "calls ?out = concat (map (deliveries ord msgs) (snapshots ?out))"
      by simp_all
    assume e: "enumerates ord"
    show "\<forall>(T, S) \<in> set (snapshots ?out). \<forall>h. h |\<in>| S \<longrightarrow>
            map snd (filter (\<lambda>c. fst c = h \<and> type_of (snd c) = T) (calls ?out))
              = filter (\<lambda>x. type_of x = T) msgs"
    proof (intro ballI)
      fix g assume g: "g \<in> set (snapshots ?out)"
      obtain T S where ts: "g = (T, S)" by (cases g)
      have "\<forall>h. h |\<in>| S \<longrightarrow>
            map snd (filter (\<lambda>c. fst c = h \<and> type_of (snd c) = T) (calls ?out))
              = filter (\<lambda>x. type_of x = T) msgs"
      proof (intro allI impI)
        fix h assume "h |\<in>| S"
        with g ts show "map snd (filter (\<lambda>c. fst c = h \<and> type_of (snd c) = T) (calls ?out))
              = filter (\<lambda>x. type_of x = T) msgs"
          by (intro batch_publish_per_handler [OF e r]) simp_all
      qed
      then show "case g of (T, S) \<Rightarrow> \<forall>h. h |\<in>| S \<longrightarrow>
            map snd (filter (\<lambda>c. fst c = h \<and> type_of (snd c) = T) (calls ?out))
              = filter (\<lambda>x. type_of x = T) msgs"
        unfolding ts by (simp only: prod.case)
    qed
  qed
  have 3: "(\<forall>h m st. registry (fst (beh h m st)) = registry st) \<longrightarrow>
          (\<forall>(T, S) \<in> set (snapshots ?out). S = snapshot (registry s) T tok)"
    by (intro impI batch_snapshots_of_start)
  have 4: "scheduled ?out = filter (\<lambda>c. iscoroutinefunction E (fst c) \<and> running) (calls ?out)"
    by (rule batch_scheduled)
  show ?thesis
    unfolding Let_def using 1 2 3 4 by - (intro conjI; assumption)
qed

lemma beh1_quiet: "\<forall>h m st. registry (fst (beh1 h m st)) = registry st"
  by (simp add: beh1_def record_call_def)

theorem batch_publish_delivers_witness:
  "group_messages abc = [(StrT, abc)]
   \<and> raised (batch_publish False E0 beh1 by_key abc (Token ''a'') \<lparr>registry = R5, app = []\<rparr>) = None
   \<and> snapshots (batch_publish False E0 beh1 by_key abc (Token ''a'') \<lparr>registry = R5, app = []\<rparr>)
       = [(StrT, {|Func 2|})]
   \<and> snapshot R5 StrT (Token ''a'') = {|Func 2|}
   \<and> calls (batch_publish False E0 beh1 by_key abc (Token ''a'') \<lparr>registry = R5, app = []\<rparr>)
       = [(Func 2, StrV ''a''), (Func 2, StrV ''b''), (Func 2, StrV ''c'')]
   \<and> map snd (filter (\<lambda>c. fst c = Func 2 \<and> type_of (snd c) = StrT)
        (calls (batch_publish False E0 beh1 by_key abc (Token ''a'') \<lparr>registry = R5, app = []\<rparr>)))
       = abc
   \<and> scheduled (batch_publish False E0 beh1 by_key abc (Token ''a'') \<lparr>registry = R5, app = []\<rparr>) = []"
proof -
  let ?s = "\<lparr>registry = R5, app = []\<rparr> :: (callable \<times> msg) list pstate"
  let ?out = "batch_publish False E0 beh1 by_key abc (Token ''a'') ?s"
  have r: "raised ?out = None"
    by (simp add: R5_def abc_def beh1_def example_defs dispatch_defs)
  have sn: "snapshots ?out = [(StrT, {|Func 2|})]"
    by (simp add: R5_def abc_def beh1_def example_defs dispatch_defs)
  have f: "filter (\<lambda>x. type_of x = StrT) abc = abc"
    by (simp add: abc_def)
  have g: "group_messages abc = [(StrT, abc)]"
    by (simp add: abc_def group_messages_def)
  from batch_publish_delivers [of False E0 beh1 by_key abc "Token ''a''" ?s]
    r sn enumerates_by_key beh1_quiet f g
  show ?thesis
    by (simp add: Let_def deliveries_def by_key_def unkey_def sorted_list_of_fset_finsert
          sorted_list_of_fset_empty abc_def)
qed

text \<open>
  Claim C6, as stated, fails: with function 1 as the single subscriber, which raises,
  \<^verbatim>\<open>batch_publish(["a", "b", "c"], t)\<close> makes the call for \<^verbatim>\<open>"a"\<close> and no
  other.
\<close>

theorem batch_publish_stops_at_raise_counterexample:
  "snapshot R4 StrT (Token ''a'') = {|Func 1|}
   \<and> calls (batch_publish False E0 beh1 by_key abc (Token ''a'') \<lparr>registry = R4, app = []\<rparr>)
       = [(Func 1, StrV ''a'')]
   \<and> raised (batch_publish False E0 beh1 by_key abc (Token ''a'') \<lparr>registry = R4, app = []\<rparr>)
       = Some (Exc ''boom'')
   \<and> map snd (filter (\<lambda>c. fst c = Func 1 \<and> type_of (snd c) = StrT)
        (calls (batch_publish False E0 beh1 by_key abc (Token ''a'') \<lparr>registry = R4, app = []\<rparr>)))
       \<noteq> abc"
  by (simp add: R4_def abc_def beh1_def example_defs dispatch_defs)

text \<open>
  Mixed types are delivered type by type; a coroutine function as the single subscriber
  makes \<^verbatim>\<open>batch_publish\<close> raise when no event loop is running, and is only
  scheduled, its body not run, when one is.
\<close>

lemma batch_publish_mixed_example:
  "calls (batch_publish False E0 beh1 by_key
            [StrV ''a'', IntV 1, StrV ''b'', IntV 2, StrV ''c''] (Token ''n'')
            \<lparr>registry = R3, app = []\<rparr>)
     = [(Func 2, StrV ''a''), (Func 2, StrV ''b''), (Func 2, StrV ''c''),
        (Func 3, IntV 1), (Func 3, IntV 2)]"
  by (simp add: R3_def beh1_def example_defs dispatch_defs)

lemma batch_publish_coroutine_example:
  "raised (batch_publish False E0 beh1 by_key abc (Token ''a'')
             \<lparr>registry = fst (subscribe E0 (Func 6) (Token ''a'') empty_registry), app = []\<rparr>)
     = Some RuntimeError
   \<and> app (state (batch_publish True E0 beh1 by_key abc (Token ''a'')
             \<lparr>registry = fst (subscribe E0 (Func 6) (Token ''a'') empty_registry), app = []\<rparr>))
     = []
   \<and> scheduled (batch_publish True E0 beh1 by_key abc (Token ''a'')
             \<lparr>registry = fst (subscribe E0 (Func 6) (Token ''a'') empty_registry), app = []\<rparr>)
     = [(Func 6, StrV ''a''), (Func 6, StrV ''b''), (Func 6, StrV ''c'')]"
  by (simp add: abc_def beh1_def example_defs dispatch_defs)

subsection \<open>Waiting and scheduling\<close>

lemma publish_one_returns:
  assumes "raised (publish_one running E beh m h r) = None"
  shows "state (publish_one running E beh m h r) = fst (beh h m (state r))
       \<and> scheduled (publish_one running E beh m h r) = scheduled r"
  using assms by (auto simp: publish_one_def call_def split: if_splits prod.splits)

lemma publish_loop_returns:
  assumes "raised (for_each (publish_one running E beh m) hs r) = None"
  shows "state (for_each (publish_one running E beh m) hs r) = run_all beh m hs (state r)
       \<and> scheduled (for_each (publish_one running E beh m) hs r) = scheduled r"
  using assms
proof (induction hs arbitrary: r)
  case Nil
  then show ?case by simp
next
  case (Cons h hs)
  let ?body = "publish_one running E beh m"
  have ok: "raised (?body h r) = None"
  proof (rule ccontr)
    assume "raised (?body h r) \<noteq> None"
    with Cons.prems show False by (auto simp: Let_def)
  qed
  then have step: "for_each ?body (h # hs) r = for_each ?body hs (?body h r)"
    by (simp add: Let_def)
  from Cons.prems have "raised (for_each ?body hs (?body h r)) = None"
    unfolding step .
  from Cons.IH [OF this] publish_one_returns [OF ok] show ?case
    unfolding step by simp
qed

lemma publish_returns:
  assumes "raised (publish running E beh ord m t s) = None"
  shows "calls (publish running E beh ord m t s)
           = map (\<lambda>h. (h, m)) (ord (snapshot (registry s) (type_of m) t))
       \<and> state (publish running E beh ord m t s)
           = run_all beh m (ord (snapshot (registry s) (type_of m) t)) s
       \<and> scheduled (publish running E beh ord m t s) = []"
proof -
  let ?hs = "ord (snapshot (registry s) (type_of m) t)"
  from assms have r: "raised (for_each (publish_one running E beh m) ?hs (snapshot_taken m t s)) = None"
    by (simp add: publish_unfold)
  from publish_loop_complete [OF r] publish_loop_returns [OF r] show ?thesis
    by (simp add: publish_unfold snapshot_taken_def start_def Let_def)
qed

lemma batch_publish_ignores_coroutine_bodies:
  assumes "\<forall>h. \<not> iscoroutinefunction E h \<longrightarrow> beh h = beh' h"
  shows "batch_publish running E beh ord msgs tok s = batch_publish running E beh' ord msgs tok s"
proof -
  have "batch_one running E beh h = batch_one running E beh' h" for h
    using assms by (intro ext) (simp add: batch_one_def call_def)
  then have "deliver_group running E beh ord tok = deliver_group running E beh' ord tok"
    by (intro ext) (simp add: deliver_group_def)
  then show ?thesis by (simp add: batch_publish_def)
qed

text \<open>
  Claim C8, as stated, fails. Called inside a running event loop, \<^verbatim>\<open>publish\<close> with
  a coroutine function subscribed raises \<^verbatim>\<open>RuntimeError\<close> and the body of the
  handler never runs; with a handler that raises, the handlers after it in the snapshot
  never run; and \<^verbatim>\<open>batch_publish\<close> called where no event loop is running raises
  \<^verbatim>\<open>RuntimeError\<close> at the first coroutine function and schedules nothing.
\<close>

theorem publish_and_batch_runtime_error_counterexample:
  "snapshot R6 StrT (Token ''a'') = {|Func 6|}
   \<and> iscoroutinefunction E0 (Func 6)
   \<and> raised (publish True E0 beh1 by_key (StrV ''hi'') (Token ''a'') \<lparr>registry = R6, app = []\<rparr>)
       = Some RuntimeError
   \<and> app (state (publish True E0 beh1 by_key (StrV ''hi'') (Token ''a'') \<lparr>registry = R6, app = []\<rparr>))
       = []
   \<and> snapshot R1 StrT (Token ''a'') = {|Func 2, Func 1|}
   \<and> app (state (publish False E0 beh1 by_key (StrV ''hi'') (Token ''a'') \<lparr>registry = R1, app = []\<rparr>))
       = [(Func 1, StrV ''hi'')]
   \<and> raised (batch_publish False E0 beh1 by_key abc (Token ''a'') \<lparr>registry = R6, app = []\<rparr>)
       = Some RuntimeError
   \<and> scheduled (batch_publish False E0 beh1 by_key abc (Token ''a'') \<lparr>registry = R6, app = []\<rparr>)
       = []"
  by (simp add: R1_def R6_def abc_def beh1_def example_defs dispatch_defs)

text \<open>
  Claim C8, amended. When \<^verbatim>\<open>publish\<close> returns normally, every handler of the
  snapshot, synchronous or asynchronous, has been called and its body has run to the end
  before the return, and nothing is left scheduled. \<^verbatim>\<open>batch_publish\<close> never runs the
  body of an asynchronous handler: what it returns and the state it leaves do not depend
  on those bodies, and the asynchronous calls it made are only scheduled on the running
  event loop, not awaited.
\<close>

theorem publish_waits_batch_schedules:
  "(raised (publish running E beh ord m t s) = None \<longrightarrow>
      calls (publish running E beh ord m t s)
        = map (\<lambda>h. (h, m)) (ord (snapshot (registry s) (type_of m) t))
      \<and> state (publish running E beh ord m t s)
        = run_all beh m (ord (snapshot (registry s) (type_of m) t)) s
      \<and> scheduled (publish running E beh ord m t s) = [])
   \<and> ((\<forall>h. \<not> iscoroutinefunction E h \<longrightarrow> beh h = beh' h) \<longrightarrow>
      batch_publish running E beh ord msgs tok s = batch_publish running E beh' ord msgs tok s)
   \<and> scheduled (batch_publish running E beh ord msgs tok s)
      = filter (\<lambda>c. iscoroutinefunction E (fst c) \<and> running)
          (calls (batch_publish running E beh ord msgs tok s))"
proof -
  have 1: "raised (publish running E beh ord m t s) = None \<longrightarrow>
      calls (publish running E beh ord m t s)
        = map (\<lambda>h. (h, m)) (ord (snapshot (registry s) (type_of m) t))
      \<and> state (publish running E beh ord m t s)
        = run_all beh m (ord (snapshot (registry s) (type_of m) t)) s
      \<and> scheduled (publish running E beh ord m t s) = []"
    by (intro impI publish_returns)
  have 2: "(\<forall>h. \<not> iscoroutinefunction E h \<longrightarrow> beh h = beh' h) \<longrightarrow>
      batch_publish running E beh ord msgs tok s = batch_publish running E beh' ord msgs tok s"
    by (intro impI batch_publish_ignores_coroutine_bodies)
  have 3: "scheduled (batch_publish running E beh ord msgs tok s)
      = filter (\<lambda>c. iscoroutinefunction E (fst c) \<and> running)
          (calls (batch_publish running E beh ord msgs tok s))"
    by (rule batch_scheduled)
  from 1 2 3 show ?thesis by - (intro conjI; assumption)
qed

theorem publish_waits_batch_schedules_witness:
  "raised (publish False E0 beh1 by_key (StrV ''hi'') (Token ''a'') \<lparr>registry = R7, app = []\<rparr>) = None
   \<and> iscoroutinefunction E0 (Func 6)
   \<and> calls (publish False E0 beh1 by_key (StrV ''hi'') (Token ''a'') \<lparr>registry = R7, app = []\<rparr>)
       = [(Func 2, StrV ''hi''), (Func 6, StrV ''hi'')]
   \<and> app (state (publish False E0 beh1 by_key (StrV ''hi'') (Token ''a'') \<lparr>registry = R7, app = []\<rparr>))
       = [(Func 2, StrV ''hi''), (Func 6, StrV ''hi'')]
   \<and> scheduled (publish False E0 beh1 by_key (StrV ''hi'') (Token ''a'') \<lparr>registry = R7, app = []\<rparr>)
       = []
   \<and> batch_publish True E0 beh1 by_key abc (Token ''a'') \<lparr>registry = R7, app = []\<rparr>
       = batch_publish True E0 beh2 by_key abc (Token ''a'') \<lparr>registry = R7, app = []\<rparr>
   \<and> app (state (batch_publish True E0 beh1 by_key abc (Token ''a'') \<lparr>registry = R7, app = []\<rparr>))
       = [(Func 2, StrV ''a''), (Func 2, StrV ''b''), (Func 2, StrV ''c'')]
   \<and> scheduled (batch_publish True E0 beh1 by_key abc (Token ''a'') \<lparr>registry = R7, app = []\<rparr>)
       = [(Func 6, StrV ''a''), (Func 6, StrV ''b''), (Func 6, StrV ''c'')]"
proof -
  let ?s = "\<lparr>registry = R7, app = []\<rparr> :: (callable \<times> msg) list pstate"
  let ?m = "StrV ''hi''"
  have a: "raised (publish False E0 beh1 by_key ?m (Token ''a'') ?s) = None"
    by (simp add: R7_def beh1_def example_defs dispatch_defs)
  have b: "\<forall>h. \<not> iscoroutinefunction E0 h \<longrightarrow> beh1 h = beh2 h"
    by (simp add: E0_def beh2_def fun_eq_iff)
  have c: "by_key (snapshot (registry ?s) (type_of ?m) (Token ''a'')) = [Func 2, Func 6]"
    by (simp add: R7_def example_defs dispatch_defs)
  have d: "calls (batch_publish True E0 beh1 by_key abc (Token ''a'') ?s)
      = [(Func 2, StrV ''a''), (Func 2, StrV ''b''), (Func 2, StrV ''c''),
         (Func 6, StrV ''a''), (Func 6, StrV ''b''), (Func 6, StrV ''c'')]"
    by (simp add: R7_def abc_def beh1_def example_defs dispatch_defs)
  have e: "app (state (batch_publish True E0 beh1 by_key abc (Token ''a'') ?s))
      = [(Func 2, StrV ''a''), (Func 2, StrV ''b''), (Func 2, StrV ''c'')]"
    by (simp add: R7_def abc_def beh1_def example_defs dispatch_defs)
  have f: "iscoroutinefunction E0 (Func 6)" "\<not> iscoroutinefunction E0 (Func 2)"
    by (simp_all add: E0_def)
  note pub = publish_waits_batch_schedules
         [of False E0 beh1 by_key ?m "Token ''a''" ?s beh2 abc "Token ''a''"]
  note bat = publish_waits_batch_schedules
         [of True E0 beh1 by_key ?m "Token ''a''" ?s beh2 abc "Token ''a''"]
  from pub [THEN conjunct1, THEN mp, OF a] c
  have p: "calls (publish False E0 beh1 by_key ?m (Token ''a'') ?s)
             = [(Func 2, StrV ''hi''), (Func 6, StrV ''hi'')]"
    "app (state (publish False E0 beh1 by_key ?m (Token ''a'') ?s))
             = [(Func 2, StrV ''hi''), (Func 6, StrV ''hi'')]"
    "scheduled (publish False E0 beh1 by_key ?m (Token ''a'') ?s) = []"
    by (simp_all add: beh1_def record_call_def)
  have q: "batch_publish True E0 beh1 by_key abc (Token ''a'') ?s
         = batch_publish True E0 beh2 by_key abc (Token ''a'') ?s"
    by (rule bat [THEN conjunct2, THEN conjunct1, THEN mp, OF b])
  from bat [THEN conjunct2, THEN conjunct2] d
  have r: "scheduled (batch_publish True E0 beh1 by_key abc (Token ''a'') ?s)
         = [(Func 6, StrV ''a''), (Func 6, StrV ''b''), (Func 6, StrV ''c'')]"
    by (simp add: E0_def)
  from a f(1) p q e r show ?thesis
    by (intro conjI)
qed

end
